theory Spec2Isabelle
  imports Main "HOL-Library.Extended_Nat"
begin

section \<open>Data model\<close>

text \<open>
  The development embeds \<^verbatim>\<open>src/base-client.ts\<close> (class BaseWebSocketClient) and the two
  channel classes of \<^verbatim>\<open>src/clob-client.ts\<close> (ClobMarketClient, ClobUserClient).

  A client object is a record of its fields. What the client does to the outside world
  (events published through the emitter, calls on the transport, settling of the promise
  that \<^verbatim>\<open>connect()\<close> returned) is appended, in program order, to the field \<open>trace\<close>.
  The JavaScript host is part of the record as well: the WebSocket instances constructed
  so far (\<open>sockets\<close>, a socket is named by its index) and the timers that are armed and
  have neither fired nor been cleared (\<open>timers\<close>).

  Strings are lists of 8-bit code units. Listeners registered on the emitter and the
  per-event callbacks of the channel classes are passive observers: they do not call
  back into the client while an event is dispatched.

  Time is left out. An armed timer may fire at any later moment, whatever delay it was
  armed with; the delay of a reconnect timer, which \<^verbatim>\<open>scheduleReconnect\<close> computes in
  double-precision arithmetic from \<^verbatim>\<open>Math.pow\<close> and \<^verbatim>\<open>Math.random\<close>, has no counterpart in
  the record of a timer. The durations among the options are whole milliseconds.
\<close>

datatype ConnectionState = Disconnected | Connecting | Connected | Reconnecting

datatype channel = Market | User

text \<open>
  The exceptions: the \<^verbatim>\<open>Error\<close> objects the code constructs, by their message, and the
  exceptions of the host. \<open>InvalidStateError\<close> is what \<^verbatim>\<open>send\<close> of the WebSocket interface
  throws on a socket that is still connecting; \<open>TypeError\<close> is thrown by the validation of
  the channel classes and by \<^verbatim>\<open>JSON.stringify\<close> (on a BigInt, on a circular structure).
\<close>

datatype error =
    Connection_timeout int
  | WebSocket_error
  | Max_reconnection_attempts_reached
  | WebSocket_is_not_connected
  | InvalidStateError
  | Construction_error
  | TypeError string

text \<open>The strings, arrays and objects the clients build as messages.\<close>

datatype json = JStr string | JArr "json list" | JObj "(string \<times> json) list"

text \<open>
  The argument of \<^verbatim>\<open>send\<close> has type \<^verbatim>\<open>unknown\<close>. \<^verbatim>\<open>send\<close> looks at it twice: is it a
  string, and if not, what does \<^verbatim>\<open>JSON.stringify\<close> make of it. A payload is therefore
  either one of the values above or any other value that is not a string, given by the
  outcome of \<^verbatim>\<open>JSON.stringify\<close> on it: a text (a number, \<^verbatim>\<open>null\<close>, a boolean, an object
  with such members), the value \<^verbatim>\<open>undefined\<close> (for \<^verbatim>\<open>undefined\<close>, a function, a symbol), or
  an exception (a BigInt, a circular structure, a throwing \<^verbatim>\<open>toJSON\<close>).
\<close>

datatype stringify_result = Gives string | Gives_undefined | Throws error

datatype payload = Value json | Other stringify_result

text \<open>
  A caller's argument to \<^verbatim>\<open>subscribe\<close>/\<^verbatim>\<open>unsubscribe\<close>, as far as the code inspects it:
  \<^verbatim>\<open>Array.isArray\<close> holds of \<open>VArr\<close> only, \<^verbatim>\<open>typeof v === 'string'\<close> of \<open>VStr\<close> only.
\<close>

datatype jsval = VStr string | VArr "jsval list" | VOther

text \<open>Payloads of the events published through \<^verbatim>\<open>emit\<close>.\<close>

datatype emitted =
    Ev_connected
  | Ev_disconnected int string
  | Ev_reconnecting nat enat
  | Ev_error error
  | Ev_stateChange ConnectionState ConnectionState
  | Ev_rawMessage string

datatype effect =
    Emit emitted
  | New_WebSocket nat string
  | Ws_send nat string
  | Ws_discard nat string
  | Ws_close nat "(nat \<times> string) option"
  | Resolve nat
  | Reject nat error
  | Uncaught error

datatype readyState = CONNECTING | OPEN | CLOSING | CLOSED

text \<open>
  A WebSocket instance: its ready state, whether the four handlers the client installed
  are still attached (\<^verbatim>\<open>cleanup\<close> sets them to null), and the promise of the
  \<^verbatim>\<open>createConnection\<close> call that constructed it (its \<^verbatim>\<open>onopen\<close> closure resolves it).
\<close>

record socket =
  readyState :: readyState
  handlers :: bool
  promise :: nat

datatype timer_kind = Connection_timer nat | Reconnect_timer | Heartbeat_timer

record timer =
  tid :: nat
  kind :: timer_kind

record options =
  url :: string
  autoReconnect :: bool
  maxReconnectAttempts :: enat
  reconnectDelay :: int
  maxReconnectDelay :: int
  heartbeatInterval :: int
  connectionTimeout :: int

record client =
  channel :: channel
  auth :: json
  options :: options
  ws :: "nat option"
  state :: ConnectionState
  reconnectAttempts :: nat
  reconnectTimer :: "nat option"
  heartbeatTimer :: "nat option"
  connectionTimer :: "nat option"
  isIntentionalClose :: bool
  ids :: "string list"
  eventCallbacks :: "(string \<times> nat list) list"
  sockets :: "socket list"
  timers :: "timer list"
  nextTimer :: nat
  nextPromise :: nat
  trace :: "effect list"

text \<open>
  The field \<open>ids\<close> is \<^verbatim>\<open>assetIds\<close> of the market client and \<^verbatim>\<open>marketIds\<close> of the user
  client: a JavaScript \<^verbatim>\<open>Set\<close>, kept as the list of its members in insertion order.
  \<^verbatim>\<open>pendingSubscriptions\<close> is left out: no method of the three classes adds to it, so
  \<^verbatim>\<open>flushPendingSubscriptions\<close> always finds it empty.
\<close>

section \<open>Construction\<close>

record user_options =
  opt_url :: "string option"
  opt_autoReconnect :: "bool option"
  opt_maxReconnectAttempts :: "enat option"
  opt_reconnectDelay :: "int option"
  opt_maxReconnectDelay :: "int option"
  opt_heartbeatInterval :: "int option"
  opt_connectionTimeout :: "int option"

definition no_options :: user_options where
  "no_options = \<lparr>opt_url = None, opt_autoReconnect = None, opt_maxReconnectAttempts = None,
     opt_reconnectDelay = None, opt_maxReconnectDelay = None, opt_heartbeatInterval = None,
     opt_connectionTimeout = None\<rparr>"

definition DEFAULT_CLOB_WSS_URL :: string where
  "DEFAULT_CLOB_WSS_URL = ''wss://ws-subscriptions-clob.polymarket.com/ws/market''"

definition DEFAULT_CLOB_USER_WSS_URL :: string where
  "DEFAULT_CLOB_USER_WSS_URL = ''wss://ws-subscriptions-clob.polymarket.com/ws/user''"

definition or_default :: "'a option \<Rightarrow> 'a \<Rightarrow> 'a" where
  "or_default v d = (case v of None \<Rightarrow> d | Some x \<Rightarrow> x)"

definition new_client :: "channel \<Rightarrow> json \<Rightarrow> user_options \<Rightarrow> client" where
  "new_client ch au uo =
     \<lparr>channel = ch, auth = au,
      options = \<lparr>url = or_default (opt_url uo)
                    (case ch of Market \<Rightarrow> DEFAULT_CLOB_WSS_URL | User \<Rightarrow> DEFAULT_CLOB_USER_WSS_URL),
                 autoReconnect = or_default (opt_autoReconnect uo) True,
                 maxReconnectAttempts = or_default (opt_maxReconnectAttempts uo) \<infinity>,
                 reconnectDelay = or_default (opt_reconnectDelay uo) 1000,
                 maxReconnectDelay = or_default (opt_maxReconnectDelay uo) 30000,
                 heartbeatInterval = or_default (opt_heartbeatInterval uo) 30000,
                 connectionTimeout = or_default (opt_connectionTimeout uo) 10000\<rparr>,
      ws = None, state = Disconnected, reconnectAttempts = 0, reconnectTimer = None,
      heartbeatTimer = None, connectionTimer = None, isIntentionalClose = False,
      ids = [], eventCallbacks = [], sockets = [], timers = [], nextTimer = 0,
      nextPromise = 0, trace = []\<rparr>"

section \<open>JSON.stringify on the messages\<close>

definition hex_digit :: "nat \<Rightarrow> char" where
  "hex_digit n = ''0123456789abcdef'' ! n"

definition escape_char :: "char \<Rightarrow> string" where
  "escape_char c =
     (let n = (of_char c :: nat) in
      if n = 0x22 then [CHR 0x5C, CHR 0x22]
      else if n = 0x5C then [CHR 0x5C, CHR 0x5C]
      else if n = 0x08 then [CHR 0x5C, CHR ''b'']
      else if n = 0x09 then [CHR 0x5C, CHR ''t'']
      else if n = 0x0A then [CHR 0x5C, CHR ''n'']
      else if n = 0x0C then [CHR 0x5C, CHR ''f'']
      else if n = 0x0D then [CHR 0x5C, CHR ''r'']
      else if n < 0x20 then [CHR 0x5C, CHR ''u'', CHR ''0'', CHR ''0'',
                             hex_digit (n div 16), hex_digit (n mod 16)]
      else [c])"

definition quote :: "string \<Rightarrow> string" where
  "quote s = CHR 0x22 # concat (map escape_char s) @ [CHR 0x22]"

fun commas :: "string list \<Rightarrow> string" where
  "commas [] = []"
| "commas [x] = x"
| "commas (x # y # ys) = x @ '','' @ commas (y # ys)"

fun JSON_stringify :: "json \<Rightarrow> string" where
  "JSON_stringify (JStr s) = quote s"
| "JSON_stringify (JArr xs) = ''['' @ commas (map JSON_stringify xs) @ '']''"
| "JSON_stringify (JObj kvs) =
     ''{'' @ commas (map (\<lambda>kv. quote (fst kv) @ '':'' @ JSON_stringify (snd kv)) kvs) @ ''}''"


section \<open>The host: timers and the transport\<close>

text \<open>
  \<^verbatim>\<open>setTimeout\<close>/\<^verbatim>\<open>setInterval\<close> arm a timer under a fresh handle and return the handle;
  \<^verbatim>\<open>clearTimeout\<close>/\<^verbatim>\<open>clearInterval\<close> disarm the timer with the given handle, if it is
  still armed. Storing a new handle in a field does not disarm the timer whose handle the
  field held before. The argument is the callback, named by its kind.
\<close>

definition setTimeout :: "timer_kind \<Rightarrow> client \<Rightarrow> nat \<times> client" where
  "setTimeout k c =
     (nextTimer c,
      c\<lparr>timers := timers c @ [\<lparr>tid = nextTimer c, kind = k\<rparr>],
        nextTimer := Suc (nextTimer c)\<rparr>)"

definition clearTimeout :: "nat \<Rightarrow> client \<Rightarrow> client" where
  "clearTimeout t c = c\<lparr>timers := filter (\<lambda>x. tid x \<noteq> t) (timers c)\<rparr>"

text \<open>
  \<^verbatim>\<open>ws.close(code?, reason?)\<close> of the WebSocket interface: a socket that is connecting
  or open starts closing; the close event arrives later, as an event of its own.
\<close>

definition ws_close :: "nat \<Rightarrow> (nat \<times> string) option \<Rightarrow> client \<Rightarrow> client" where
  "ws_close w args c =
     (let s = sockets c ! w;
          s' = (if readyState s = CONNECTING \<or> readyState s = OPEN
                then s\<lparr>readyState := CLOSING\<rparr> else s)
      in c\<lparr>sockets := (sockets c)[w := s'], trace := trace c @ [Ws_close w args]\<rparr>)"

text \<open>
  \<^verbatim>\<open>ws.send(message)\<close> of the WebSocket interface. On a socket that is still connecting it
  throws \<open>InvalidStateError\<close>. Otherwise the argument is converted to a string
  (\<^verbatim>\<open>undefined\<close> becomes the text \<^verbatim>\<open>undefined\<close>); an open socket transmits it, a socket that
  is closing or closed discards it without an exception.
\<close>

definition ws_send :: "nat \<Rightarrow> string option \<Rightarrow> client \<Rightarrow> error + client" where
  "ws_send w message c =
     (let text = (case message of None \<Rightarrow> ''undefined'' | Some m \<Rightarrow> m)
      in case readyState (sockets c ! w) of
           CONNECTING \<Rightarrow> Inl InvalidStateError
         | OPEN \<Rightarrow> Inr (c\<lparr>trace := trace c @ [Ws_send w text]\<rparr>)
         | _ \<Rightarrow> Inr (c\<lparr>trace := trace c @ [Ws_discard w text]\<rparr>))"

section \<open>BaseWebSocketClient\<close>

definition emit :: "emitted \<Rightarrow> client \<Rightarrow> client" where
  "emit e c = c\<lparr>trace := trace c @ [Emit e]\<rparr>"

definition isConnected :: "client \<Rightarrow> bool" where
  "isConnected c = (state c = Connected)"

definition setState :: "ConnectionState \<Rightarrow> client \<Rightarrow> client" where
  "setState newState c =
     (if state c \<noteq> newState
      then let previousState = state c
           in emit (Ev_stateChange newState previousState) (c\<lparr>state := newState\<rparr>)
      else c)"

text \<open>\<^verbatim>\<open>handleError\<close>: the \<^verbatim>\<open>onError\<close> hook is empty in all three classes.\<close>

definition handleError :: "error \<Rightarrow> client \<Rightarrow> client" where
  "handleError err c = emit (Ev_error err) c"

definition clearConnectionTimeout :: "client \<Rightarrow> client" where
  "clearConnectionTimeout c =
     (case connectionTimer c of
        None \<Rightarrow> c
      | Some t \<Rightarrow> (clearTimeout t c)\<lparr>connectionTimer := None\<rparr>)"

definition stopHeartbeat :: "client \<Rightarrow> client" where
  "stopHeartbeat c =
     (case heartbeatTimer c of
        None \<Rightarrow> c
      | Some t \<Rightarrow> (clearTimeout t c)\<lparr>heartbeatTimer := None\<rparr>)"

definition startHeartbeat :: "client \<Rightarrow> client" where
  "startHeartbeat c =
     (let c1 = stopHeartbeat c;
          (t, c2) = setTimeout Heartbeat_timer c1
      in c2\<lparr>heartbeatTimer := Some t\<rparr>)"

text \<open>
  The value of \<^verbatim>\<open>typeof data === 'string' ? data : JSON.stringify(data)\<close>: \<open>Inl\<close> is the
  exception of \<^verbatim>\<open>JSON.stringify\<close>, \<open>Inr None\<close> the value \<^verbatim>\<open>undefined\<close>.
\<close>

fun message_of :: "payload \<Rightarrow> error + string option" where
  "message_of (Value (JStr s)) = Inr (Some s)"
| "message_of (Value j) = Inr (Some (JSON_stringify j))"
| "message_of (Other (Gives t)) = Inr (Some t)"
| "message_of (Other Gives_undefined) = Inr None"
| "message_of (Other (Throws e)) = Inl e"

text \<open>
  \<^verbatim>\<open>send\<close>: \<open>Inl\<close> is the exception that leaves the method, its own, that of
  \<^verbatim>\<open>JSON.stringify\<close> or that of the transport.
\<close>

definition send :: "payload \<Rightarrow> client \<Rightarrow> error + client" where
  "send d c =
     (case ws c of
        None \<Rightarrow> Inl WebSocket_is_not_connected
      | Some w \<Rightarrow>
          if state c \<noteq> Connected then Inl WebSocket_is_not_connected
          else (case message_of d of
                  Inl e \<Rightarrow> Inl e
                | Inr message \<Rightarrow> ws_send w message c))"

definition sendHeartbeat :: "client \<Rightarrow> client" where
  "sendHeartbeat c = (case send (Value (JStr ''ping'')) c of Inl _ \<Rightarrow> c | Inr c' \<Rightarrow> c')"

text \<open>
  \<^verbatim>\<open>scheduleReconnect\<close>. The statement that computes the delay writes no field and
  publishes nothing; it is not modelled.
\<close>

definition scheduleReconnect :: "client \<Rightarrow> client" where
  "scheduleReconnect c =
     (if maxReconnectAttempts (options c) \<le> enat (reconnectAttempts c)
      then handleError Max_reconnection_attempts_reached (setState Disconnected c)
      else
        let c1 = setState Reconnecting c;
            c2 = c1\<lparr>reconnectAttempts := reconnectAttempts c1 + 1\<rparr>;
            c3 = emit (Ev_reconnecting (reconnectAttempts c2)
                        (maxReconnectAttempts (options c2))) c2;
            (t, c4) = setTimeout Reconnect_timer c3
        in c4\<lparr>reconnectTimer := Some t\<rparr>)"

text \<open>
  \<^verbatim>\<open>createConnection\<close>. \<open>throws\<close> tells whether \<^verbatim>\<open>new WebSocket(url)\<close> throws. The result
  is the promise returned together with the client; its rejection in the \<^verbatim>\<open>catch\<close>
  branch is in the trace.
\<close>

definition createConnection :: "bool \<Rightarrow> client \<Rightarrow> nat \<times> client" where
  "createConnection throws c =
     (let c1 = setState Connecting c;
          p = nextPromise c1;
          c2 = c1\<lparr>nextPromise := Suc p\<rparr>
      in if throws
         then let c3 = clearConnectionTimeout c2;
                  c4 = handleError Construction_error c3
              in (p, c4\<lparr>trace := trace c4 @ [Reject p Construction_error]\<rparr>)
         else let w = length (sockets c2);
                  c3 = c2\<lparr>sockets := sockets c2 @
                                      [\<lparr>readyState = CONNECTING, handlers = True, promise = p\<rparr>],
                         ws := Some w,
                         trace := trace c2 @ [New_WebSocket w (url (options c2))]\<rparr>;
                  (t, c4) = setTimeout (Connection_timer p) c3
              in (p, c4\<lparr>connectionTimer := Some t\<rparr>))"

text \<open>The callback of the connection timer armed for promise \<open>p\<close>.\<close>

definition connection_timeout_fired :: "nat \<Rightarrow> client \<Rightarrow> client" where
  "connection_timeout_fired p c =
     (let err = Connection_timeout (connectionTimeout (options c));
          c1 = handleError err c;
          c2 = (case ws c1 of None \<Rightarrow> c1 | Some w \<Rightarrow> ws_close w None c1)
      in c2\<lparr>trace := trace c2 @ [Reject p err]\<rparr>)"

datatype connect_result = Returned | Awaiting nat

definition connect :: "bool \<Rightarrow> client \<Rightarrow> connect_result \<times> client" where
  "connect throws c =
     (if state c = Connected \<or> state c = Connecting then (Returned, c)
      else let (p, c') = createConnection throws (c\<lparr>isIntentionalClose := False\<rparr>)
           in (Awaiting p, c'))"

section \<open>The channel classes\<close>

definition channel_word :: "channel \<Rightarrow> string" where
  "channel_word ch = (case ch of Market \<Rightarrow> ''asset'' | User \<Rightarrow> ''market'')"

definition is_whitespace :: "char \<Rightarrow> bool" where
  "is_whitespace ch = ((of_char ch :: nat) \<in> {0x09, 0x0A, 0x0B, 0x0C, 0x0D, 0x20, 0xA0})"

definition trim :: "string \<Rightarrow> string" where
  "trim s = rev (dropWhile is_whitespace (rev (dropWhile is_whitespace s)))"

definition bad_id :: "jsval \<Rightarrow> bool" where
  "bad_id v = (case v of VStr s \<Rightarrow> trim s = [] | _ \<Rightarrow> True)"

text \<open>
  The two checks that open every \<^verbatim>\<open>subscribe\<close> and \<^verbatim>\<open>unsubscribe\<close>: \<open>Inl\<close> is the
  \<^verbatim>\<open>TypeError\<close> thrown, \<open>Inr\<close> the list of ids when both checks pass.
\<close>

definition validate_ids :: "channel \<Rightarrow> jsval \<Rightarrow> error + string list" where
  "validate_ids ch arg =
     (case arg of
        VArr vs \<Rightarrow>
          if \<exists>v \<in> set vs. bad_id v
          then Inl (TypeError (''Each '' @ channel_word ch @ '' ID must be a non-empty string''))
          else Inr (map (\<lambda>v. case v of VStr s \<Rightarrow> s | _ \<Rightarrow> []) vs)
      | _ \<Rightarrow> Inl (TypeError (channel_word ch @ ''Ids must be an array'')))"

definition set_add :: "string \<Rightarrow> string list \<Rightarrow> string list" where
  "set_add x xs = (if x \<in> set xs then xs else xs @ [x])"

definition set_delete :: "string \<Rightarrow> string list \<Rightarrow> string list" where
  "set_delete x xs = removeAll x xs"

definition subscribe_message :: "string list \<Rightarrow> json" where
  "subscribe_message xs =
     JObj [(''assets_ids'', JArr (map JStr xs)), (''operation'', JStr ''subscribe'')]"

definition unsubscribe_message :: "string list \<Rightarrow> json" where
  "unsubscribe_message xs =
     JObj [(''assets_ids'', JArr (map JStr xs)), (''operation'', JStr ''unsubscribe'')]"

definition market_replay_message :: "string list \<Rightarrow> json" where
  "market_replay_message xs =
     JObj [(''type'', JStr ''MARKET''), (''assets_ids'', JArr (map JStr xs))]"

definition user_message :: "json \<Rightarrow> string list \<Rightarrow> json" where
  "user_message au xs =
     JObj [(''auth'', au), (''type'', JStr ''USER''), (''markets'', JArr (map JStr xs))]"

definition sendFullSubscription :: "client \<Rightarrow> error + client" where
  "sendFullSubscription c = send (Value (user_message (auth c) (ids c))) c"

text \<open>
  \<^verbatim>\<open>subscribe\<close> and \<^verbatim>\<open>unsubscribe\<close> return the exception thrown, if any, and the client
  as the call leaves it.
\<close>

definition finish :: "client \<Rightarrow> error + client \<Rightarrow> error option \<times> client" where
  "finish c r = (case r of Inl e \<Rightarrow> (Some e, c) | Inr c' \<Rightarrow> (None, c'))"

definition subscribe :: "jsval \<Rightarrow> client \<Rightarrow> error option \<times> client" where
  "subscribe arg c =
     (case validate_ids (channel c) arg of
        Inl e \<Rightarrow> (Some e, c)
      | Inr xs \<Rightarrow>
          let new = filter (\<lambda>x. x \<notin> set (ids c)) xs
          in if new = [] then (None, c)
             else let c1 = c\<lparr>ids := fold set_add new (ids c)\<rparr>
                  in if isConnected c1
                     then finish c1 (case channel c1 of
                                       Market \<Rightarrow> send (Value (subscribe_message new)) c1
                                     | User \<Rightarrow> sendFullSubscription c1)
                     else (None, c1))"

definition unsubscribe :: "jsval \<Rightarrow> client \<Rightarrow> error option \<times> client" where
  "unsubscribe arg c =
     (case validate_ids (channel c) arg of
        Inl e \<Rightarrow> (Some e, c)
      | Inr xs \<Rightarrow>
          (case channel c of
             Market \<Rightarrow>
               let existing = filter (\<lambda>x. x \<in> set (ids c)) xs
               in if existing = [] then (None, c)
                  else let c1 = c\<lparr>ids := fold set_delete existing (ids c)\<rparr>
                       in if isConnected c1
                          then finish c1 (send (Value (unsubscribe_message existing)) c1)
                          else (None, c1)
           | User \<Rightarrow>
               let c1 = c\<lparr>ids := fold set_delete xs (ids c)\<rparr>
               in if isConnected c1 then finish c1 (sendFullSubscription c1)
                  else (None, c1)))"

definition addEventCallback :: "string \<Rightarrow> nat \<Rightarrow> client \<Rightarrow> client" where
  "addEventCallback ev cb c =
     (let m = (if ev \<in> fst ` set (eventCallbacks c) then eventCallbacks c
               else eventCallbacks c @ [(ev, [])])
      in c\<lparr>eventCallbacks :=
             map (\<lambda>(k, cbs). if k = ev then (k, if cb \<in> set cbs then cbs else cbs @ [cb])
                              else (k, cbs)) m\<rparr>)"

definition onConnected :: "client \<Rightarrow> error + client" where
  "onConnected c =
     (case channel c of
        Market \<Rightarrow> if length (ids c) > 0 then send (Value (market_replay_message (ids c))) c
                  else Inr c
      | User \<Rightarrow> sendFullSubscription c)"

definition onCleanup :: "client \<Rightarrow> client" where
  "onCleanup c = c\<lparr>ids := [], eventCallbacks := []\<rparr>"

section \<open>Transport handlers, cleanup and disconnect\<close>

text \<open>
  \<^verbatim>\<open>ws.onopen\<close> of the socket whose promise is \<open>p\<close>. An exception of \<^verbatim>\<open>onConnected\<close>
  leaves the handler: the \<^verbatim>\<open>connected\<close> event and the resolution are skipped.
\<close>

definition onopen :: "nat \<Rightarrow> client \<Rightarrow> client" where
  "onopen p c =
     (let c1 = clearConnectionTimeout c;
          c2 = c1\<lparr>reconnectAttempts := 0\<rparr>;
          c3 = setState Connected c2;
          c4 = startHeartbeat c3
      in case onConnected c4 of
           Inl e \<Rightarrow> c4\<lparr>trace := trace c4 @ [Uncaught e]\<rparr>
         | Inr c5 \<Rightarrow> let c6 = emit Ev_connected c5
                     in c6\<lparr>trace := trace c6 @ [Resolve p]\<rparr>)"

text \<open>\<^verbatim>\<open>ws.onclose\<close>; the \<^verbatim>\<open>onDisconnected\<close> hook is empty in all three classes.\<close>

definition onclose :: "int \<Rightarrow> string \<Rightarrow> client \<Rightarrow> client" where
  "onclose code reason c =
     (let c1 = clearConnectionTimeout c;
          c2 = stopHeartbeat c1;
          c3 = emit (Ev_disconnected code reason) c2
      in if \<not> isIntentionalClose c3 \<and> autoReconnect (options c3)
         then scheduleReconnect c3
         else setState Disconnected c3)"

definition onerror :: "client \<Rightarrow> client" where
  "onerror c = handleError WebSocket_error c"

text \<open>
  \<^verbatim>\<open>handleIncomingMessage\<close>: the \<^verbatim>\<open>rawMessage\<close> event; the dispatch to the per-event
  callbacks writes no field of the client.
\<close>

definition handleIncomingMessage :: "string \<Rightarrow> client \<Rightarrow> client" where
  "handleIncomingMessage text c = emit (Ev_rawMessage text) c"

definition cleanup :: "client \<Rightarrow> client" where
  "cleanup c =
     (let c1 = clearConnectionTimeout c;
          c2 = stopHeartbeat c1;
          c3 = (case reconnectTimer c2 of
                  None \<Rightarrow> c2
                | Some t \<Rightarrow> (clearTimeout t c2)\<lparr>reconnectTimer := None\<rparr>);
          c4 = (case ws c3 of
                  None \<Rightarrow> c3
                | Some w \<Rightarrow>
                    let c3a = c3\<lparr>sockets := (sockets c3)[w := (sockets c3 ! w)\<lparr>handlers := False\<rparr>]\<rparr>;
                        c3b = (if readyState (sockets c3a ! w) = OPEN \<or>
                                  readyState (sockets c3a ! w) = CONNECTING
                               then ws_close w (Some (1000, ''Client disconnect'')) c3a
                               else c3a)
                    in c3b\<lparr>ws := None\<rparr>);
          c5 = c4\<lparr>reconnectAttempts := 0\<rparr>
      in onCleanup c5)"

definition disconnect :: "client \<Rightarrow> client" where
  "disconnect c = setState Disconnected (cleanup (c\<lparr>isIntentionalClose := True\<rparr>))"

section \<open>Events and runs\<close>

text \<open>
  What can happen to a client: a call of its public interface, an event of one of its
  sockets, a timer firing. A socket event follows the life cycle of the WebSocket
  interface (open only while connecting, nothing after the close event) and reaches the
  client only while the handlers are attached; a timer fires only while armed, a timeout
  once, the heartbeat interval again and again.
\<close>

datatype event =
    Call_connect bool
  | Call_disconnect
  | Call_subscribe jsval
  | Call_unsubscribe jsval
  | Call_on string nat
  | Ws_open nat
  | Ws_closed nat int string
  | Ws_error nat
  | Ws_message nat string
  | Timer_fired nat bool

definition set_readyState :: "nat \<Rightarrow> readyState \<Rightarrow> client \<Rightarrow> client" where
  "set_readyState w rs c = c\<lparr>sockets := (sockets c)[w := (sockets c ! w)\<lparr>readyState := rs\<rparr>]\<rparr>"

definition fire :: "timer \<Rightarrow> bool \<Rightarrow> client \<Rightarrow> client" where
  "fire t throws c =
     (case kind t of
        Connection_timer p \<Rightarrow> connection_timeout_fired p (clearTimeout (tid t) c)
      | Reconnect_timer \<Rightarrow> snd (createConnection throws (clearTimeout (tid t) c))
      | Heartbeat_timer \<Rightarrow> if state c = Connected then sendHeartbeat c else c)"

definition step :: "event \<Rightarrow> client \<Rightarrow> client" where
  "step e c =
     (case e of
        Call_connect throws \<Rightarrow> snd (connect throws c)
      | Call_disconnect \<Rightarrow> disconnect c
      | Call_subscribe arg \<Rightarrow> snd (subscribe arg c)
      | Call_unsubscribe arg \<Rightarrow> snd (unsubscribe arg c)
      | Call_on ev cb \<Rightarrow> addEventCallback ev cb c
      | Ws_open w \<Rightarrow>
          if w < length (sockets c) \<and> readyState (sockets c ! w) = CONNECTING
          then let c1 = set_readyState w OPEN c
               in if handlers (sockets c ! w) then onopen (promise (sockets c ! w)) c1 else c1
          else c
      | Ws_closed w code reason \<Rightarrow>
          if w < length (sockets c) \<and> readyState (sockets c ! w) \<noteq> CLOSED
          then let c1 = set_readyState w CLOSED c
               in if handlers (sockets c ! w) then onclose code reason c1 else c1
          else c
      | Ws_error w \<Rightarrow>
          if w < length (sockets c) \<and> readyState (sockets c ! w) \<noteq> CLOSED
             \<and> handlers (sockets c ! w)
          then onerror c else c
      | Ws_message w text \<Rightarrow>
          if w < length (sockets c) \<and> handlers (sockets c ! w)
             \<and> (readyState (sockets c ! w) = OPEN \<or> readyState (sockets c ! w) = CLOSING)
          then handleIncomingMessage text c else c
      | Timer_fired t throws \<Rightarrow>
          (case find (\<lambda>x. tid x = t) (timers c) of
             None \<Rightarrow> c
           | Some x \<Rightarrow> fire x throws c))"

fun run :: "event list \<Rightarrow> client \<Rightarrow> client" where
  "run [] c = c"
| "run (e # es) c = run es (step e c)"


section \<open>Observations on traces and runs\<close>

text \<open>The messages handed to an open socket, with the socket each went to.\<close>

fun sent :: "effect list \<Rightarrow> (nat \<times> string) list" where
  "sent [] = []"
| "sent (Ws_send w m # tr) = (w, m) # sent tr"
| "sent (_ # tr) = sent tr"

text \<open>The \<^verbatim>\<open>stateChange\<close> events, as pairs of new and previous state.\<close>

fun state_changes :: "effect list \<Rightarrow> (ConnectionState \<times> ConnectionState) list" where
  "state_changes [] = []"
| "state_changes (Emit (Ev_stateChange n p) # tr) = (n, p) # state_changes tr"
| "state_changes (_ # tr) = state_changes tr"

text \<open>The \<^verbatim>\<open>error\<close> events.\<close>

fun errors :: "effect list \<Rightarrow> error list" where
  "errors [] = []"
| "errors (Emit (Ev_error e) # tr) = e # errors tr"
| "errors (_ # tr) = errors tr"

text \<open>The sockets constructed.\<close>

fun constructed :: "effect list \<Rightarrow> nat list" where
  "constructed [] = []"
| "constructed (New_WebSocket w u # tr) = w # constructed tr"
| "constructed (_ # tr) = constructed tr"

text \<open>What a step adds to the trace.\<close>

definition added :: "client \<Rightarrow> client \<Rightarrow> effect list" where
  "added c c' = drop (length (trace c)) (trace c')"


section \<open>Auxiliary notions\<close>

text \<open>Removing the timer a handle field refers to, if the field holds one.\<close>

definition drop_timer :: "nat option \<Rightarrow> timer list \<Rightarrow> timer list" where
  "drop_timer h ts = (case h of None \<Rightarrow> ts | Some t \<Rightarrow> filter (\<lambda>x. tid x \<noteq> t) ts)"

text \<open>
  A malformed argument list of \<^verbatim>\<open>subscribe\<close>/\<^verbatim>\<open>unsubscribe\<close>, in the words of the
  specification: not an array, or an array with a member that is not a string or is the
  empty string.
\<close>

definition malformed :: "jsval \<Rightarrow> bool" where
  "malformed arg =
     (case arg of
        VArr vs \<Rightarrow> \<exists>v \<in> set vs. (case v of VStr s \<Rightarrow> s = [] | _ \<Rightarrow> True)
      | _ \<Rightarrow> True)"

section \<open>Example clients\<close>

definition market0 :: client where
  "market0 = new_client Market (JObj []) no_options"

definition credentials :: json where
  "credentials = JObj [(''apiKey'', JStr ''key''), (''secret'', JStr ''s3cret''),
                       (''passphrase'', JStr ''pass'')]"

definition user0 :: client where
  "user0 = new_client User credentials no_options"

text \<open>Scenario A of the specification: a connection timeout of 100 ms, other options default.\<close>

definition scenarioA :: client where
  "scenarioA = new_client Market (JObj []) (no_options\<lparr>opt_connectionTimeout := Some 100\<rparr>)"

definition two_assets :: jsval where
  "two_assets = VArr [VStr ''asset1'', VStr ''asset2'']"

definition open_market :: client where
  "open_market = run [Call_connect False, Ws_open 0] market0"

definition connected_market :: client where
  "connected_market = run [Call_subscribe two_assets, Call_connect False, Ws_open 0] market0"

section \<open>The replay message\<close>

text \<open>
  The replay message of a channel, written out: the market channel lists the ledger
  under \<^verbatim>\<open>assets_ids\<close>, the user channel sends its credentials and the ledger under
  \<^verbatim>\<open>markets\<close>. The market channel sends it only for a ledger that is not empty.
\<close>

definition replay_message :: "client \<Rightarrow> json" where
  "replay_message c =
     (case channel c of
        Market \<Rightarrow> JObj [(''type'', JStr ''MARKET''), (''assets_ids'', JArr (map JStr (ids c)))]
      | User \<Rightarrow> JObj [(''auth'', auth c), (''type'', JStr ''USER''),
                      (''markets'', JArr (map JStr (ids c)))])"

definition sends_replay :: "client \<Rightarrow> bool" where
  "sends_replay c = (channel c = User \<or> ids c \<noteq> [])"

section \<open>More example clients\<close>



text \<open>
  A market client with a callback for \<^verbatim>\<open>book\<close> events and two assets, whose socket has
  closed: it waits for its first reconnect attempt.
\<close>

definition reconnecting_market :: client where
  "reconnecting_market =
     run [Call_on ''book'' 7, Call_subscribe two_assets, Call_connect False, Ws_open 0,
          Ws_closed 0 1006 []] market0"



definition subscribed_connecting :: client where
  "subscribed_connecting = run [Call_subscribe two_assets, Call_connect False] market0"

definition connected_user :: client where
  "connected_user =
     run [Call_subscribe (VArr [VStr ''market1'']), Call_connect False, Ws_open 0] user0"

definition disconnected_user :: client where
  "disconnected_user = step Call_disconnect connected_user"

definition reopened_user :: client where
  "reopened_user = run [Call_connect False, Ws_open 1] disconnected_user"

section \<open>State transitions of a run\<close>

text \<open>
  The transition edges of the state diagram in section 4.4 of the specification, in its
  words: connect() leads from \<open>disconnected\<close> to \<open>connecting\<close>, an open from
  \<open>connecting\<close> to \<open>connected\<close>, a close from \<open>connected\<close> to \<open>reconnecting\<close>, an elapsed
  delay from \<open>reconnecting\<close> to \<open>connected\<close> or to \<open>reconnecting\<close> again, and every state
  can fall to \<open>disconnected\<close>.
\<close>

fun spec_edge :: "ConnectionState \<Rightarrow> ConnectionState \<Rightarrow> bool" where
  "spec_edge _ Disconnected = True"
| "spec_edge Disconnected Connecting = True"
| "spec_edge Connecting Connected = True"
| "spec_edge Connected Reconnecting = True"
| "spec_edge Reconnecting Connected = True"
| "spec_edge Reconnecting Reconnecting = True"
| "spec_edge _ _ = False"

text \<open>
  The edges along which the code moves the state: every connection attempt, the first
  and each later one, passes through \<open>connecting\<close>.
\<close>

fun code_edge :: "ConnectionState \<Rightarrow> ConnectionState \<Rightarrow> bool" where
  "code_edge _ Disconnected = True"
| "code_edge Disconnected Connecting = True"
| "code_edge Reconnecting Connecting = True"
| "code_edge Connecting Connected = True"
| "code_edge Connecting Reconnecting = True"
| "code_edge Connected Reconnecting = True"
| "code_edge _ _ = False"

definition any_edge :: "ConnectionState \<Rightarrow> ConnectionState \<Rightarrow> bool" where
  "any_edge a b = True"

text \<open>
  A step from \<open>c\<close> to \<open>c'\<close> is in order for a set of edges \<open>E\<close>: if the state changed, the
  change is an edge of \<open>E\<close> and the step published exactly one \<^verbatim>\<open>stateChange\<close> event, with
  the new and the previous state; if it did not change, the step published none.
\<close>

definition transition_ok ::
  "(ConnectionState \<Rightarrow> ConnectionState \<Rightarrow> bool) \<Rightarrow> client \<Rightarrow> client \<Rightarrow> bool" where
  "transition_ok E c c' =
     (if state c' = state c then state_changes (added c c') = []
      else E (state c) (state c') \<and> state_changes (added c c') = [(state c', state c)])"

fun run_follows ::
  "(ConnectionState \<Rightarrow> ConnectionState \<Rightarrow> bool) \<Rightarrow> event list \<Rightarrow> client \<Rightarrow> bool" where
  "run_follows E [] c = True"
| "run_follows E (e # es) c = (transition_ok E c (step e c) \<and> run_follows E es (step e c))"

text \<open>
  Runs in which \<^verbatim>\<open>connect()\<close> is never called while the state is \<open>reconnecting\<close>. Such a
  call leaves the armed reconnect timer behind.
\<close>

definition connect_while_reconnecting :: "event \<Rightarrow> client \<Rightarrow> bool" where
  "connect_while_reconnecting e c =
     (case e of Call_connect _ \<Rightarrow> state c = Reconnecting | _ \<Rightarrow> False)"

fun calm :: "event list \<Rightarrow> client \<Rightarrow> bool" where
  "calm [] c = True"
| "calm (e # es) c = (\<not> connect_while_reconnecting e c \<and> calm es (step e c))"

definition is_connect :: "event \<Rightarrow> bool" where
  "is_connect e = (case e of Call_connect _ \<Rightarrow> True | _ \<Rightarrow> False)"

section \<open>Invariants\<close>

text \<open>
  A socket is live while its handlers are attached and its close event is still to
  come. In a tidy client the only live socket is the one the client holds, a connecting
  socket belongs to state \<open>connecting\<close>, and the only armed reconnect timer is the one
  \<^verbatim>\<open>reconnectTimer\<close> refers to, in state \<open>reconnecting\<close>.
\<close>

definition live :: "client \<Rightarrow> nat \<Rightarrow> bool" where
  "live c w \<longleftrightarrow> w < length (sockets c) \<and> handlers (sockets c ! w)
     \<and> readyState (sockets c ! w) \<noteq> CLOSED"

definition tidy :: "client \<Rightarrow> bool" where
  "tidy c \<longleftrightarrow>
     (\<forall>w. ws c = Some w \<longrightarrow> w < length (sockets c)) \<and>
     (\<forall>w. live c w \<longrightarrow>
          ws c = Some w \<and> (state c = Connecting \<or> state c = Connected) \<and>
          (readyState (sockets c ! w) = CONNECTING \<longrightarrow> state c = Connecting)) \<and>
     (\<forall>x \<in> set (timers c). kind x = Reconnect_timer \<longrightarrow>
          state c = Reconnecting \<and> reconnectTimer c = Some (tid x))"

text \<open>A step that leaves state, socket table and handles alone and arms no timer.\<close>

definition same_shape :: "client \<Rightarrow> client \<Rightarrow> bool" where
  "same_shape c c' \<longleftrightarrow> state c' = state c \<and> ws c' = ws c \<and> sockets c' = sockets c
     \<and> set (timers c') \<subseteq> set (timers c) \<and> reconnectTimer c' = reconnectTimer c"

text \<open>
  \<open>changes\<close>: the trace grows by at most one \<^verbatim>\<open>stateChange\<close> event, which reports the
  change of state. \<open>quiet\<close>: the state stays and no \<^verbatim>\<open>stateChange\<close> event is published.
\<close>

definition changes :: "client \<Rightarrow> client \<Rightarrow> bool" where
  "changes c c' \<longleftrightarrow>
     (\<exists>X. trace c' = trace c @ X \<and>
          state_changes X = (if state c' = state c then [] else [(state c', state c)]))"

definition quiet :: "client \<Rightarrow> client \<Rightarrow> bool" where
  "quiet c c' \<longleftrightarrow> state c' = state c \<and> (\<exists>X. trace c' = trace c @ X \<and> state_changes X = [])"

text \<open>
  The ledger has no duplicates and every armed timer has a handle below the next one
  to be issued; \<open>keeps\<close> is what a step has to do to preserve this.
\<close>

definition well_formed :: "client \<Rightarrow> bool" where
  "well_formed c \<longleftrightarrow> distinct (ids c) \<and> (\<forall>x \<in> set (timers c). tid x < nextTimer c)"

definition keeps :: "client \<Rightarrow> client \<Rightarrow> bool" where
  "keeps c c' \<longleftrightarrow>
     (distinct (ids c) \<longrightarrow> distinct (ids c')) \<and> nextTimer c \<le> nextTimer c' \<and>
     (\<forall>x \<in> set (timers c'). x \<in> set (timers c) \<or> (nextTimer c \<le> tid x \<and> tid x < nextTimer c'))"

text \<open>In state \<open>connected\<close> the client holds a socket.\<close>

definition holds_socket :: "client \<Rightarrow> bool" where
  "holds_socket c \<longleftrightarrow> (state c = Connected \<longrightarrow> (\<exists>w. ws c = Some w \<and> w < length (sockets c)))"

text \<open>The socket the client holds is in the table and has its handlers.\<close>

definition attached :: "client \<Rightarrow> bool" where
  "attached c \<longleftrightarrow>
     (\<forall>w. ws c = Some w \<longrightarrow> w < length (sockets c) \<and> handlers (sockets c ! w))"

text \<open>What \<^verbatim>\<open>cleanup\<close> does to the socket table and to the trace.\<close>

definition cleanup_sockets :: "nat option \<Rightarrow> socket list \<Rightarrow> socket list" where
  "cleanup_sockets h ss =
     (case h of None \<Rightarrow> ss
      | Some w \<Rightarrow> ss[w := (ss ! w)\<lparr>handlers := False,
                      readyState := (if readyState (ss ! w) = OPEN \<or> readyState (ss ! w) = CONNECTING
                                     then CLOSING else readyState (ss ! w))\<rparr>])"

definition cleanup_effects :: "nat option \<Rightarrow> socket list \<Rightarrow> effect list" where
  "cleanup_effects h ss =
     (case h of None \<Rightarrow> []
      | Some w \<Rightarrow> if readyState (ss ! w) = OPEN \<or> readyState (ss ! w) = CONNECTING
                  then [Ws_close w (Some (1000, ''Client disconnect''))] else [])"

section \<open>The ledger across events\<close>

text \<open>
  The calls that change the ledger, and what the other events preserve: the ledger, the
  channel and the credentials.
\<close>

definition touches_ledger :: "event \<Rightarrow> bool" where
  "touches_ledger e =
     (case e of Call_subscribe _ \<Rightarrow> True | Call_unsubscribe _ \<Rightarrow> True
      | Call_disconnect \<Rightarrow> True | _ \<Rightarrow> False)"

definition same_ledger :: "client \<Rightarrow> client \<Rightarrow> bool" where
  "same_ledger c c' \<longleftrightarrow> ids c' = ids c \<and> channel c' = channel c \<and> auth c' = auth c"

section \<open>Example runs\<close>

text \<open>A failed reconnect attempt followed by a second attempt.\<close>

definition second_attempt :: "event list" where
  "second_attempt = [Timer_fired 2 False, Ws_closed 1 1006 [], Timer_fired 4 False]"


definition reconnect_run :: "event list" where
  "reconnect_run = [Call_connect False, Ws_open 0, Ws_closed 0 1006 [], Timer_fired 2 False]"

text \<open>
  A run that ends with \<^verbatim>\<open>disconnect()\<close> while a reconnect timer armed earlier is still
  pending: the socket closes, \<^verbatim>\<open>connect()\<close> is called during the reconnect delay, the
  new socket closes as well (a second reconnect timer is armed and replaces the first
  in \<^verbatim>\<open>reconnectTimer\<close>), then \<^verbatim>\<open>disconnect()\<close>.
\<close>

definition stale_timer_run :: "event list" where
  "stale_timer_run =
     [Call_connect False, Ws_open 0, Ws_closed 0 1006 [],
      Call_connect False, Ws_closed 1 1006 [], Call_disconnect]"

definition after_stale_run :: client where
  "after_stale_run = run stale_timer_run market0"

text \<open>
  A run with \<^verbatim>\<open>connect()\<close> during the reconnect delay: the new socket opens while the
  reconnect timer armed at the close is still pending.
\<close>

definition impatient_run :: "event list" where
  "impatient_run =
     [Call_connect False, Ws_open 0, Ws_closed 0 1006 [], Call_connect False, Ws_open 1]"

text \<open>
  Runs with \<^verbatim>\<open>connect()\<close> during the reconnect delay in which the reconnect timer armed at
  the close (handle 2) fires after the call. The client then holds socket 2, which the
  timer's callback constructed; socket 1, which \<^verbatim>\<open>connect()\<close> constructed, is no longer
  held but keeps its handlers, and its connection timer (handle 3) stays armed.
\<close>

definition replaced_socket_run :: "event list" where
  "replaced_socket_run =
     [Call_connect False, Ws_open 0, Ws_closed 0 1006 [], Call_connect False,
      Timer_fired 2 False]"

text \<open>Socket 1 opens first: the client is connected and holds a socket that is connecting.\<close>

definition connected_to_connecting :: client where
  "connected_to_connecting = run (replaced_socket_run @ [Ws_open 1]) market0"

text \<open>
  Socket 2 opens, then the connection timer of socket 1 fires and closes the socket the
  client holds: the client is connected and holds a socket that is closing.
\<close>

definition connected_to_closing :: client where
  "connected_to_closing = run (replaced_socket_run @ [Ws_open 2, Timer_fired 3 False]) market0"

text \<open>
  \<^verbatim>\<open>disconnect()\<close> is called, then socket 1 opens: the client is connected and holds no
  socket.
\<close>

definition connected_without_socket :: client where
  "connected_without_socket = run (replaced_socket_run @ [Call_disconnect, Ws_open 1]) market0"

text \<open>
  The same on a client with two assets in its ledger, after its socket closed: both
  sockets open, the held one first.
\<close>

definition double_replay_run :: "event list" where
  "double_replay_run =
     [Ws_closed 0 1006 [], Call_connect False, Timer_fired 2 False, Ws_open 2, Ws_open 1]"

definition after_double_replay :: client where
  "after_double_replay = run double_replay_run connected_market"

section \<open>Basic facts\<close>

lemma drop_timer_simps [simp]:
  "drop_timer None ts = ts"
  "drop_timer (Some t) ts = filter (\<lambda>x. tid x \<noteq> t) ts"
  by (simp_all add: drop_timer_def)

lemma clearConnectionTimeout_eq:
  "clearConnectionTimeout c =
     c\<lparr>timers := drop_timer (connectionTimer c) (timers c), connectionTimer := None\<rparr>"
  by (cases "connectionTimer c") (simp_all add: clearConnectionTimeout_def clearTimeout_def)

lemma stopHeartbeat_eq:
  "stopHeartbeat c =
     c\<lparr>timers := drop_timer (heartbeatTimer c) (timers c), heartbeatTimer := None\<rparr>"
  by (cases "heartbeatTimer c") (simp_all add: stopHeartbeat_def clearTimeout_def)

lemma setState_eq:
  "setState n c =
     c\<lparr>state := n,
       trace := trace c @ (if state c \<noteq> n then [Emit (Ev_stateChange n (state c))] else [])\<rparr>"
  by (simp add: setState_def emit_def)

lemma startHeartbeat_eq:
  "startHeartbeat c =
     c\<lparr>timers := drop_timer (heartbeatTimer c) (timers c) @
                  [\<lparr>tid = nextTimer c, kind = Heartbeat_timer\<rparr>],
       nextTimer := Suc (nextTimer c),
       heartbeatTimer := Some (nextTimer c)\<rparr>"
  by (simp add: startHeartbeat_def stopHeartbeat_eq setTimeout_def)

text \<open>A call of \<^verbatim>\<open>send\<close> that returns has added one entry to the trace and nothing else.\<close>

lemma send_Inr:
  "send d c = Inr c' \<Longrightarrow>
     \<exists>w m. c' = c\<lparr>trace := trace c @ [Ws_send w m]\<rparr> \<or> c' = c\<lparr>trace := trace c @ [Ws_discard w m]\<rparr>"
  by (auto simp: send_def ws_send_def Let_def
      split: option.splits if_splits sum.splits readyState.splits)

lemma find_last_fresh:
  "\<forall>x \<in> set xs. \<not> P x \<Longrightarrow> P y \<Longrightarrow> find P (xs @ [y]) = Some y"
  by (induction xs) auto

lemma sent_append [simp]: "sent (a @ b) = sent a @ sent b"
  by (induction a rule: sent.induct) auto

lemma state_changes_append [simp]:
  "state_changes (a @ b) = state_changes a @ state_changes b"
  by (induction a rule: state_changes.induct) auto

lemma errors_append [simp]: "errors (a @ b) = errors a @ errors b"
  by (induction a rule: errors.induct) auto

lemma constructed_append [simp]: "constructed (a @ b) = constructed a @ constructed b"
  by (induction a rule: constructed.induct) auto

lemmas client_defs = new_client_def no_options_def or_default_def DEFAULT_CLOB_WSS_URL_def
  DEFAULT_CLOB_USER_WSS_URL_def market0_def user0_def scenarioA_def credentials_def
  two_assets_def

section \<open>connect() while connected or connecting\<close>

text \<open>
  C6. A call of \<^verbatim>\<open>connect()\<close> in state \<open>connected\<close> or \<open>connecting\<close> returns at once and
  leaves the client exactly as it was: no socket is constructed, the state, the timers and
  the intentional-close flag keep their values, nothing is published.
\<close>

theorem connect_while_connected_is_noop:
  "state c = Connected \<or> state c = Connecting \<Longrightarrow>
   connect throws c = (Returned, c) \<and> step (Call_connect throws) c = c"
  by (auto simp: connect_def step_def)

theorem connect_while_connected_is_noop_witness:
  "state (step (Call_connect False) market0) = Connecting \<and>
   connect False (step (Call_connect False) market0)
     = (Returned, step (Call_connect False) market0) \<and>
   step (Call_connect False) (step (Call_connect False) market0)
     = step (Call_connect False) market0 \<and>
   length (sockets (run [Call_connect False, Call_connect False] market0)) = 1"
proof -
  have h: "state (step (Call_connect False) market0) = Connecting"
    by code_simp
  have n: "length (sockets (step (Call_connect False) market0)) = 1"
    by code_simp
  from h have h': "state (step (Call_connect False) market0) = Connected \<or>
    state (step (Call_connect False) market0) = Connecting" by simp
  show ?thesis
    using h n connect_while_connected_is_noop [OF h', of False] by simp
qed

section \<open>send\<close>

text \<open>
  C8 (amended). \<^verbatim>\<open>send\<close> throws the not-connected error, and hands nothing to the
  transport, whenever the state is not \<open>connected\<close> or no socket is held. In state
  \<open>connected\<close> with a socket \<open>w\<close> held: a payload on which \<^verbatim>\<open>JSON.stringify\<close> throws makes
  \<^verbatim>\<open>send\<close> throw that exception, with nothing handed to the transport; for any other
  payload \<^verbatim>\<open>send\<close> of the socket is called, with the payload itself when it is a string,
  with its JSON text when it is not, and with \<^verbatim>\<open>undefined\<close> (which the socket turns into
  the text \<^verbatim>\<open>undefined\<close>) when \<^verbatim>\<open>JSON.stringify\<close> yields no text. That call throws
  \<open>InvalidStateError\<close> while \<open>w\<close> is still connecting, transmits the text when \<open>w\<close> is
  open, and discards it when \<open>w\<close> is closing or closed.
\<close>

theorem send_contract:
  "(state c \<noteq> Connected \<or> ws c = None \<longrightarrow> send d c = Inl WebSocket_is_not_connected) \<and>
   (state c = Connected \<and> ws c = Some w \<longrightarrow>
      send (Other (Throws e)) c = Inl e \<and>
      (readyState (sockets c ! w) = CONNECTING \<and> (\<forall>x. d \<noteq> Other (Throws x)) \<longrightarrow>
         send d c = Inl InvalidStateError) \<and>
      (readyState (sockets c ! w) = OPEN \<longrightarrow>
         send (Value (JStr s)) c = Inr (c\<lparr>trace := trace c @ [Ws_send w s]\<rparr>) \<and>
         ((\<forall>t. j \<noteq> JStr t) \<longrightarrow>
            send (Value j) c = Inr (c\<lparr>trace := trace c @ [Ws_send w (JSON_stringify j)]\<rparr>)) \<and>
         send (Other (Gives s)) c = Inr (c\<lparr>trace := trace c @ [Ws_send w s]\<rparr>) \<and>
         send (Other Gives_undefined) c
           = Inr (c\<lparr>trace := trace c @ [Ws_send w ''undefined'']\<rparr>)) \<and>
      (readyState (sockets c ! w) = CLOSING \<or> readyState (sockets c ! w) = CLOSED \<longrightarrow>
         send (Value (JStr s)) c = Inr (c\<lparr>trace := trace c @ [Ws_discard w s]\<rparr>) \<and>
         ((\<forall>t. j \<noteq> JStr t) \<longrightarrow>
            send (Value j) c = Inr (c\<lparr>trace := trace c @ [Ws_discard w (JSON_stringify j)]\<rparr>)) \<and>
         send (Other (Gives s)) c = Inr (c\<lparr>trace := trace c @ [Ws_discard w s]\<rparr>) \<and>
         send (Other Gives_undefined) c
           = Inr (c\<lparr>trace := trace c @ [Ws_discard w ''undefined'']\<rparr>)))"
proof -
  have m: "(\<forall>x. d \<noteq> Other (Throws x)) \<Longrightarrow> \<exists>m. message_of d = Inr m"
    by (cases d rule: message_of.cases) auto
  have n: "(\<forall>t. j \<noteq> JStr t) \<Longrightarrow> message_of (Value j) = Inr (Some (JSON_stringify j))"
    by (cases j) auto
  show ?thesis
    using m n
    by (cases "ws c") (auto simp: send_def ws_send_def)
qed

theorem send_contract_witness:
  "send (Value (JStr ''hello'')) market0 = Inl WebSocket_is_not_connected \<and>
   send (Value (JStr ''ping'')) connected_market
     = Inr (connected_market\<lparr>trace := trace connected_market @ [Ws_send 0 ''ping'']\<rparr>) \<and>
   send (Value (subscribe_message [''asset3''])) connected_market
     = Inr (connected_market\<lparr>trace := trace connected_market @
              [Ws_send 0 (JSON_stringify (subscribe_message [''asset3'']))]\<rparr>) \<and>
   send (Other (Throws (TypeError ''Do not know how to serialize a BigInt''))) connected_market
     = Inl (TypeError ''Do not know how to serialize a BigInt'') \<and>
   send (Value (JStr ''ping'')) connected_to_connecting = Inl InvalidStateError \<and>
   send (Value (JStr ''ping'')) connected_to_closing
     = Inr (connected_to_closing\<lparr>trace := trace connected_to_closing @ [Ws_discard 2 ''ping'']\<rparr>)"
proof -
  have a: "state market0 \<noteq> Connected \<or> ws market0 = None" by code_simp
  have b: "state connected_market = Connected \<and> ws connected_market = Some 0"
    "readyState (sockets connected_market ! 0) = OPEN" by code_simp+
  have c: "state connected_to_connecting = Connected \<and> ws connected_to_connecting = Some 2"
    "readyState (sockets connected_to_connecting ! 2) = CONNECTING" by code_simp+
  have d: "state connected_to_closing = Connected \<and> ws connected_to_closing = Some 2"
    "readyState (sockets connected_to_closing ! 2) = CLOSING" by code_simp+
  have n: "\<forall>t. subscribe_message [''asset3''] \<noteq> JStr t"
    by (simp add: subscribe_message_def)
  show ?thesis
    using a b c d n send_contract [of market0 "Value (JStr ''hello'')"]
      send_contract [of connected_market _ 0
        "TypeError ''Do not know how to serialize a BigInt''" "''ping''"
        "subscribe_message [''asset3'']"]
      send_contract [of connected_to_connecting "Value (JStr ''ping'')" 2]
      send_contract [of connected_to_closing _ 2 _ "''ping''"]
    by simp
qed

theorem send_without_socket_counterexample:
  "state connected_without_socket = Connected \<and>
   ws connected_without_socket = None \<and>
   send (Value (JStr ''hello'')) connected_without_socket = Inl WebSocket_is_not_connected \<and>
   state connected_market = Connected \<and>
   send (Other (Throws (TypeError ''Do not know how to serialize a BigInt''))) connected_market
     = Inl (TypeError ''Do not know how to serialize a BigInt'') \<and>
   state connected_to_connecting = Connected \<and>
   send (Value (JStr ''hello'')) connected_to_connecting = Inl InvalidStateError"
  by code_simp

section \<open>Validation of subscribe and unsubscribe arguments\<close>

lemma bad_id_if_malformed:
  "(case v of VStr s \<Rightarrow> s = [] | _ \<Rightarrow> True) \<Longrightarrow> bad_id v"
  by (cases v) (auto simp: bad_id_def trim_def)

lemma malformed_rejected:
  "malformed arg \<Longrightarrow> \<exists>msg. validate_ids ch arg = Inl (TypeError msg)"
  by (cases arg) (auto simp: malformed_def validate_ids_def dest: bad_id_if_malformed)

text \<open>
  C9. A malformed argument list makes \<^verbatim>\<open>subscribe\<close> and \<^verbatim>\<open>unsubscribe\<close> throw a
  \<^verbatim>\<open>TypeError\<close> and leaves the client exactly as it was: no id of the list enters or
  leaves the ledger and no message is sent, whatever the other members of the list are.
\<close>

theorem validation_errors_stop_the_call:
  "malformed arg \<Longrightarrow>
   \<exists>msg. subscribe arg c = (Some (TypeError msg), c) \<and>
         unsubscribe arg c = (Some (TypeError msg), c) \<and>
         step (Call_subscribe arg) c = c \<and> step (Call_unsubscribe arg) c = c"
  using malformed_rejected [of arg "channel c"]
  by (auto simp: subscribe_def unsubscribe_def step_def)

theorem validation_errors_stop_the_call_witness:
  "malformed (VArr [VStr ''asset1'', VStr '''']) \<and>
   ids connected_market = [''asset1'', ''asset2''] \<and>
   (\<exists>msg. subscribe (VArr [VStr ''asset1'', VStr '''']) connected_market
            = (Some (TypeError msg), connected_market) \<and>
          unsubscribe (VArr [VStr ''asset1'', VStr '''']) connected_market
            = (Some (TypeError msg), connected_market) \<and>
          step (Call_subscribe (VArr [VStr ''asset1'', VStr ''''])) connected_market
            = connected_market \<and>
          step (Call_unsubscribe (VArr [VStr ''asset1'', VStr ''''])) connected_market
            = connected_market)"
proof -
  have m: "malformed (VArr [VStr ''asset1'', VStr ''''])"
    by (simp add: malformed_def)
  have i: "ids connected_market = [''asset1'', ''asset2'']" by code_simp
  show ?thesis
    using m i validation_errors_stop_the_call [OF m, of connected_market] by simp
qed

section \<open>Effects of single steps\<close>

lemmas handler_defs = step_def emit_def setTimeout_def onopen_def set_readyState_def
  clearConnectionTimeout_eq startHeartbeat_eq stopHeartbeat_eq setState_eq onConnected_def
  onclose_def scheduleReconnect_def handleError_def connection_timeout_fired_def ws_close_def
  fire_def send_def ws_send_def sendFullSubscription_def added_def clearTimeout_def
  createConnection_def Let_def

lemma open_effects:
  assumes "ws c = Some w" "w < length (sockets c)" "readyState (sockets c ! w) = CONNECTING"
    "handlers (sockets c ! w)" "state c \<noteq> Connected"
  shows "state (step (Ws_open w) c) = Connected"
    "ids (step (Ws_open w) c) = ids c"
    "trace (step (Ws_open w) c) = trace c @
      Emit (Ev_stateChange Connected (state c)) #
      (if sends_replay c then [Ws_send w (JSON_stringify (replay_message c))] else []) @
      [Emit Ev_connected, Resolve (promise (sockets c ! w))]"
  using assms
  by (simp_all add: handler_defs market_replay_message_def user_message_def replay_message_def
      sends_replay_def split: channel.splits)

lemma cleanup_fields:
  "ids (cleanup c) = []" "eventCallbacks (cleanup c) = []" "reconnectAttempts (cleanup c) = 0"
  "ws (cleanup c) = None" "state (cleanup c) = state c" "channel (cleanup c) = channel c"
  "auth (cleanup c) = auth c" "isIntentionalClose (cleanup c) = isIntentionalClose c"
  "options (cleanup c) = options c" "length (sockets (cleanup c)) = length (sockets c)"
  by (simp_all add: cleanup_def clearConnectionTimeout_eq stopHeartbeat_eq clearTimeout_def
      onCleanup_def ws_close_def Let_def split: option.splits)

lemma disconnect_fields:
  "ids (disconnect c) = []" "eventCallbacks (disconnect c) = []"
  "reconnectAttempts (disconnect c) = 0" "ws (disconnect c) = None"
  "state (disconnect c) = Disconnected" "channel (disconnect c) = channel c"
  "auth (disconnect c) = auth c" "isIntentionalClose (disconnect c)"
  "options (disconnect c) = options c"
  by (simp_all add: disconnect_def setState_eq cleanup_fields)

lemma connect_effects:
  assumes "state c \<noteq> Connected" "state c \<noteq> Connecting"
  shows "step (Call_connect False) c =
     c\<lparr>isIntentionalClose := False, state := Connecting,
       nextPromise := Suc (nextPromise c),
       sockets := sockets c @ [\<lparr>readyState = CONNECTING, handlers = True, promise = nextPromise c\<rparr>],
       ws := Some (length (sockets c)),
       trace := trace c @ [Emit (Ev_stateChange Connecting (state c)),
                           New_WebSocket (length (sockets c)) (url (options c))],
       timers := timers c @ [\<lparr>tid = nextTimer c, kind = Connection_timer (nextPromise c)\<rparr>],
       nextTimer := Suc (nextTimer c),
       connectionTimer := Some (nextTimer c)\<rparr>"
  using assms
  by (simp add: step_def connect_def createConnection_def setState_eq setTimeout_def Let_def)

lemma added_append:
  "trace b = trace a @ x \<Longrightarrow> trace c = trace b @ y \<Longrightarrow> added a c = x @ y"
  by (simp add: added_def)

lemma close_effects:
  assumes "w < length (sockets c)" "readyState (sockets c ! w) \<noteq> CLOSED"
    "handlers (sockets c ! w)" "\<not> isIntentionalClose c" "autoReconnect (options c)"
    "enat (reconnectAttempts c) < maxReconnectAttempts (options c)"
  shows "step (Ws_closed w code reason) c =
     c\<lparr>sockets := (sockets c)[w := (sockets c ! w)\<lparr>readyState := CLOSED\<rparr>],
       timers := drop_timer (heartbeatTimer c) (drop_timer (connectionTimer c) (timers c)) @
                 [\<lparr>tid = nextTimer c, kind = Reconnect_timer\<rparr>],
       connectionTimer := None, heartbeatTimer := None,
       trace := trace c @ Emit (Ev_disconnected code reason) #
                (if state c \<noteq> Reconnecting
                 then [Emit (Ev_stateChange Reconnecting (state c))] else []) @
                [Emit (Ev_reconnecting (reconnectAttempts c + 1)
                        (maxReconnectAttempts (options c)))],
       state := Reconnecting,
       reconnectAttempts := reconnectAttempts c + 1,
       nextTimer := Suc (nextTimer c),
       reconnectTimer := Some (nextTimer c)\<rparr>"
  using assms
  by (simp add: handler_defs not_le[symmetric])

lemma reconnect_fire_effects:
  assumes "find (\<lambda>x. tid x = t) (timers c) = Some x" "kind x = Reconnect_timer"
  shows "step (Timer_fired t False) c =
     c\<lparr>state := Connecting,
       nextPromise := Suc (nextPromise c),
       sockets := sockets c @ [\<lparr>readyState = CONNECTING, handlers = True, promise = nextPromise c\<rparr>],
       ws := Some (length (sockets c)),
       trace := trace c @
                (if state c \<noteq> Connecting then [Emit (Ev_stateChange Connecting (state c))] else []) @
                [New_WebSocket (length (sockets c)) (url (options c))],
       timers := filter (\<lambda>y. tid y \<noteq> tid x) (timers c) @
                 [\<lparr>tid = nextTimer c, kind = Connection_timer (nextPromise c)\<rparr>],
       nextTimer := Suc (nextTimer c),
       connectionTimer := Some (nextTimer c)\<rparr>"
  using assms
  by (simp add: handler_defs)

lemma set_drop_timer: "set (drop_timer h ts) \<subseteq> set ts"
  by (cases h) auto

lemma count_list_distinct:
  "distinct xs \<Longrightarrow> count_list xs k = (if k \<in> set xs then 1 else 0)"
  by (induction xs) auto

section \<open>Connection timeout\<close>






section \<open>disconnect() and the ledger\<close>

text \<open>
  C10 (amended). \<^verbatim>\<open>disconnect()\<close> empties the ledger and the per-event callbacks and
  resets the attempt counter to 0. A following \<^verbatim>\<open>connect()\<close> whose socket opens starts
  from the empty ledger: the market channel sends nothing on open, the user channel sends
  its credentials with an empty list of markets.
\<close>

theorem disconnect_erases_ledger:
  "(let d = step Call_disconnect c;
        w = length (sockets d);
        d1 = step (Call_connect False) d;
        d2 = step (Ws_open w) d1
    in ids d = [] \<and> eventCallbacks d = [] \<and> reconnectAttempts d = 0
       \<and> state d = Disconnected \<and> isIntentionalClose d
       \<and> state d1 = Connecting \<and> ids d1 = []
       \<and> state d2 = Connected \<and> ids d2 = []
       \<and> sent (added d d2) =
            (case channel c of
               Market \<Rightarrow> []
             | User \<Rightarrow> [(w, JSON_stringify (user_message (auth c) []))]))"
proof -
  define d where "d = step Call_disconnect c"
  define d1 where "d1 = step (Call_connect False) d"
  define w where "w = length (sockets d)"
  have dd: "d = disconnect c" by (simp add: d_def step_def)
  have d: "ids d = []" "eventCallbacks d = []" "reconnectAttempts d = 0" "ws d = None"
    "state d = Disconnected" "channel d = channel c" "auth d = auth c" "isIntentionalClose d"
    unfolding dd by (simp_all add: disconnect_fields)
  have d1: "d1 = d\<lparr>isIntentionalClose := False, state := Connecting,
       nextPromise := Suc (nextPromise d),
       sockets := sockets d @ [\<lparr>readyState = CONNECTING, handlers = True, promise = nextPromise d\<rparr>],
       ws := Some (length (sockets d)),
       trace := trace d @ [Emit (Ev_stateChange Connecting (state d)),
                           New_WebSocket (length (sockets d)) (url (options d))],
       timers := timers d @ [\<lparr>tid = nextTimer d, kind = Connection_timer (nextPromise d)\<rparr>],
       nextTimer := Suc (nextTimer d),
       connectionTimer := Some (nextTimer d)\<rparr>"
    unfolding d1_def using d(5) by (intro connect_effects) simp_all
  have o: "ws d1 = Some w" "w < length (sockets d1)" "readyState (sockets d1 ! w) = CONNECTING"
    "handlers (sockets d1 ! w)" "state d1 \<noteq> Connected"
    unfolding d1 w_def by simp_all
  have f1: "state d1 = Connecting" "ids d1 = []" "channel d1 = channel c" "auth d1 = auth c"
    "trace d1 = trace d @ [Emit (Ev_stateChange Connecting (state d)),
                           New_WebSocket (length (sockets d)) (url (options d))]"
    unfolding d1 using d by simp_all
  have t: "trace (step (Ws_open w) d1) = trace d @
      [Emit (Ev_stateChange Connecting (state d)),
       New_WebSocket (length (sockets d)) (url (options d)),
       Emit (Ev_stateChange Connected (state d1))] @
      (if sends_replay d1 then [Ws_send w (JSON_stringify (replay_message d1))] else []) @
      [Emit Ev_connected, Resolve (promise (sockets d1 ! w))]"
    using open_effects(3) [OF o] f1(5) by simp
  have s: "sent (added d (step (Ws_open w) d1)) =
            (case channel c of
               Market \<Rightarrow> []
             | User \<Rightarrow> [(w, JSON_stringify (user_message (auth c) []))])"
    unfolding added_def t using f1
    by (simp add: sends_replay_def replay_message_def user_message_def split: channel.splits)
  show ?thesis
    using d f1 open_effects(1,2) [OF o] s
    unfolding Let_def d_def [symmetric] w_def [symmetric] d1_def [symmetric]
    by simp
qed

theorem disconnect_erases_ledger_witness:
  "ids reconnecting_market = [''asset1'', ''asset2''] \<and>
   eventCallbacks reconnecting_market = [(''book'', [7])] \<and>
   reconnectAttempts reconnecting_market = 1 \<and>
   ids (step Call_disconnect reconnecting_market) = [] \<and>
   eventCallbacks (step Call_disconnect reconnecting_market) = [] \<and>
   reconnectAttempts (step Call_disconnect reconnecting_market) = 0 \<and>
   state (step (Ws_open 1) (step (Call_connect False) (step Call_disconnect reconnecting_market)))
     = Connected \<and>
   sent (added (step Call_disconnect reconnecting_market)
          (step (Ws_open 1) (step (Call_connect False) (step Call_disconnect reconnecting_market))))
     = []"
proof -
  have v: "ids reconnecting_market = [''asset1'', ''asset2'']"
    "eventCallbacks reconnecting_market = [(''book'', [7])]"
    "reconnectAttempts reconnecting_market = 1"
    "length (sockets (step Call_disconnect reconnecting_market)) = 1"
    "channel reconnecting_market = Market"
    by code_simp+
  show ?thesis
    using v disconnect_erases_ledger [of reconnecting_market]
    unfolding Let_def by simp
qed

theorem user_channel_replays_empty_ledger_counterexample:
  \<open>ids connected_user = [''market1''] \<and>
   ids disconnected_user = [] \<and>
   state reopened_user = Connected \<and>
   sent (added disconnected_user reopened_user)
     = [(1, ''{"auth":{"apiKey":"key","secret":"s3cret","passphrase":"pass"},"type":"USER","markets":[]}'')] \<and>
   sent (added disconnected_user reopened_user) \<noteq> []\<close>
  by code_simp

section \<open>Replay after an unintended close\<close>

text \<open>
  The shortest way back: the socket held closes, the reconnect timer fires, the new
  socket opens and is handed the ledger as it was before the close.
\<close>

lemma direct_reconnect_replay:
  assumes "state c = Connected" "ws c = Some w" "w < length (sockets c)"
    "readyState (sockets c ! w) \<noteq> CLOSED" "handlers (sockets c ! w)"
    "\<not> isIntentionalClose c" "autoReconnect (options c)"
    "enat (reconnectAttempts c) < maxReconnectAttempts (options c)"
    "distinct (ids c)" "\<forall>x \<in> set (timers c). tid x < nextTimer c"
  shows "(let c1 = step (Ws_closed w code reason) c;
              c2 = step (Timer_fired (nextTimer c) False) c1;
              w' = length (sockets c);
              c3 = step (Ws_open w') c2
          in state c1 = Reconnecting \<and> ids c1 = ids c
             \<and> state c2 = Connecting \<and> constructed (added c c2) = [w']
             \<and> state c3 = Connected \<and> ids c3 = ids c
             \<and> sent (added c c3) =
                  (if sends_replay c then [(w', JSON_stringify (replay_message c))] else [])
             \<and> (\<forall>k. count_list (ids c) k = (if k \<in> set (ids c) then 1 else 0)))"
proof -
  define c1 where "c1 = step (Ws_closed w code reason) c"
  define c2 where "c2 = step (Timer_fired (nextTimer c) False) c1"
  define w' where "w' = length (sockets c)"
  define c3 where "c3 = step (Ws_open w') c2"
  define x where "x = \<lparr>tid = nextTimer c, kind = Reconnect_timer\<rparr>"
  note c1 = close_effects [OF assms(3,4,5,6,7,8), of code reason, folded c1_def]
  have f1: "state c1 = Reconnecting" "ids c1 = ids c" "channel c1 = channel c"
    "auth c1 = auth c" "length (sockets c1) = length (sockets c)"
    "trace c1 = trace c @ [Emit (Ev_disconnected code reason),
        Emit (Ev_stateChange Reconnecting Connected),
        Emit (Ev_reconnecting (reconnectAttempts c + 1) (maxReconnectAttempts (options c)))]"
    "timers c1 = drop_timer (heartbeatTimer c) (drop_timer (connectionTimer c) (timers c)) @ [x]"
    unfolding c1 x_def using assms(1) by simp_all
  have "\<forall>y \<in> set (drop_timer (heartbeatTimer c) (drop_timer (connectionTimer c) (timers c))).
          tid y \<noteq> nextTimer c"
  proof
    fix y assume "y \<in> set (drop_timer (heartbeatTimer c) (drop_timer (connectionTimer c) (timers c)))"
    then have "y \<in> set (timers c)"
      using set_drop_timer by blast
    with assms(10) show "tid y \<noteq> nextTimer c" by auto
  qed
  then have fnd: "find (\<lambda>y. tid y = nextTimer c) (timers c1) = Some x"
    unfolding f1(7) by (intro find_last_fresh) (simp_all add: x_def)
  have kx: "kind x = Reconnect_timer" by (simp add: x_def)
  note c2 = reconnect_fire_effects [OF fnd kx, folded c2_def]
  have f2: "state c2 = Connecting" "ids c2 = ids c" "channel c2 = channel c" "auth c2 = auth c"
    "ws c2 = Some w'" "w' < length (sockets c2)" "readyState (sockets c2 ! w') = CONNECTING"
    "handlers (sockets c2 ! w')" "state c2 \<noteq> Connected"
    "trace c2 = trace c1 @ [Emit (Ev_stateChange Connecting Reconnecting),
         New_WebSocket w' (url (options c1))]"
    unfolding c2 w'_def using f1 by (simp_all add: nth_append)
  note o = open_effects [OF f2(5-9), folded c3_def]
  have sr: "sends_replay c2 = sends_replay c" "replay_message c2 = replay_message c"
    using f2(2,3,4) by (simp_all add: sends_replay_def replay_message_def split: channel.splits)
  have s3: "sent (added c c3) =
      (if sends_replay c then [(w', JSON_stringify (replay_message c))] else [])"
    unfolding added_def o(3) f2(10) f1(6) sr by simp
  have s2: "constructed (added c c2) = [w']"
    unfolding added_def f2(10) f1(6) by simp
  have cnt: "\<forall>k. count_list (ids c) k = (if k \<in> set (ids c) then 1 else 0)"
    using assms(9) by (simp add: count_list_distinct)
  show ?thesis
    unfolding Let_def c1_def [symmetric] c2_def [symmetric] w'_def [symmetric] c3_def [symmetric]
    using f1(1,2) f2(1) s2 o(1,2) f2(2) s3 cnt by simp
qed

text \<open>Every event other than the three calls that change the ledger leaves it alone.\<close>

lemma same_ledger_refl [simp]: "same_ledger c c"
  by (simp add: same_ledger_def)

lemma same_ledger_trans: "same_ledger a b \<Longrightarrow> same_ledger b c \<Longrightarrow> same_ledger a c"
  by (simp add: same_ledger_def)

lemma same_ledger_send: "send d c = Inr c' \<Longrightarrow> same_ledger c c'"
  by (auto dest!: send_Inr simp: same_ledger_def)

lemma same_ledger_onConnected: "onConnected c = Inr c' \<Longrightarrow> same_ledger c c'"
  by (auto simp: onConnected_def sendFullSubscription_def split: channel.splits if_splits
      dest: same_ledger_send)

lemma same_ledger_createConnection: "same_ledger c (snd (createConnection throws c))"
  by (simp add: same_ledger_def createConnection_def setState_eq clearConnectionTimeout_eq
      handleError_def emit_def setTimeout_def Let_def)

lemma same_ledger_connect: "same_ledger c (snd (connect throws c))"
  using same_ledger_createConnection [of "c\<lparr>isIntentionalClose := False\<rparr>" throws]
  by (simp add: connect_def split_beta same_ledger_def)

lemma same_ledger_onopen: "same_ledger c (onopen p c)"
proof -
  define c4 where "c4 = startHeartbeat (setState Connected
     ((clearConnectionTimeout c)\<lparr>reconnectAttempts := 0\<rparr>))"
  have k4: "same_ledger c c4"
    by (simp add: c4_def same_ledger_def startHeartbeat_eq setState_eq clearConnectionTimeout_eq)
  show ?thesis
  proof (cases "onConnected c4")
    case (Inl e)
    then have "onopen p c = c4\<lparr>trace := trace c4 @ [Uncaught e]\<rparr>"
      by (simp add: onopen_def c4_def Let_def)
    with k4 show ?thesis by (simp add: same_ledger_def)
  next
    case (Inr c5)
    then have "onopen p c = c5\<lparr>trace := trace c5 @ [Emit Ev_connected, Resolve p]\<rparr>"
      by (simp add: onopen_def c4_def Let_def emit_def)
    with same_ledger_trans [OF k4 same_ledger_onConnected [OF Inr]] show ?thesis
      by (simp add: same_ledger_def)
  qed
qed

lemma same_ledger_onclose: "same_ledger c (onclose code reason c)"
  by (simp add: same_ledger_def onclose_def scheduleReconnect_def setState_eq handleError_def
      emit_def setTimeout_def stopHeartbeat_eq clearConnectionTimeout_eq Let_def)

lemma same_ledger_fire: "same_ledger c (fire x throws c)"
proof (cases "kind x")
  case (Connection_timer p)
  then show ?thesis
    by (simp add: fire_def same_ledger_def connection_timeout_fired_def handleError_def emit_def
        ws_close_def clearTimeout_def Let_def split: option.splits)
next
  case Reconnect_timer
  then show ?thesis
    using same_ledger_createConnection [of "clearTimeout (tid x) c" throws]
    by (simp add: fire_def same_ledger_def clearTimeout_def)
next
  case Heartbeat_timer
  then show ?thesis
    by (auto simp: fire_def sendHeartbeat_def split: sum.splits dest: same_ledger_send)
qed

lemma same_ledger_step: "\<not> touches_ledger e \<Longrightarrow> same_ledger c (step e c)"
proof (cases e)
  case (Call_connect b)
  then show ?thesis by (simp add: step_def same_ledger_connect)
next
  case (Call_on ev cb)
  then show ?thesis by (simp add: step_def addEventCallback_def Let_def same_ledger_def)
next
  case (Ws_open w)
  then show ?thesis
    using same_ledger_onopen [of "set_readyState w OPEN c"]
    by (simp add: step_def Let_def same_ledger_def set_readyState_def)
next
  case (Ws_closed w code reason)
  then show ?thesis
    using same_ledger_onclose [of "set_readyState w CLOSED c"]
    by (simp add: step_def Let_def same_ledger_def set_readyState_def)
next
  case (Ws_error w)
  then show ?thesis by (simp add: step_def onerror_def handleError_def emit_def same_ledger_def)
next
  case (Ws_message w t)
  then show ?thesis
    by (simp add: step_def handleIncomingMessage_def emit_def same_ledger_def)
next
  case (Timer_fired t b)
  then show ?thesis by (simp add: step_def same_ledger_fire split: option.splits)
qed (simp_all add: touches_ledger_def)

lemma same_ledger_run: "\<forall>e \<in> set es. \<not> touches_ledger e \<Longrightarrow> same_ledger c (run es c)"
proof (induction es arbitrary: c)
  case Nil
  then show ?case by simp
next
  case (Cons e es)
  then have "same_ledger c (step e c)" "same_ledger (step e c) (run es (step e c))"
    by (simp_all add: same_ledger_step)
  then show ?case using same_ledger_trans by fastforce
qed

section \<open>One stateChange event for each change of state\<close>

lemma quiet_refl [simp]: "quiet c c"
  by (simp add: quiet_def)

lemma quiet_changes: "quiet c c' \<Longrightarrow> changes c c'"
  by (auto simp: quiet_def changes_def)

lemma quiet_trans: "quiet a b \<Longrightarrow> quiet b c \<Longrightarrow> quiet a c"
  by (auto simp: quiet_def)

lemma quiet_then_changes: "quiet a b \<Longrightarrow> changes b c \<Longrightarrow> changes a c"
  by (auto simp: quiet_def changes_def)

lemma changes_then_quiet: "changes a b \<Longrightarrow> quiet b c \<Longrightarrow> changes a c"
  by (auto simp: quiet_def changes_def)

lemma changes_setState: "changes c (setState n c)"
  by (auto simp: changes_def setState_eq)

lemma quiet_clearConnectionTimeout: "quiet c (clearConnectionTimeout c)"
  by (simp add: quiet_def clearConnectionTimeout_eq)

lemma quiet_stopHeartbeat: "quiet c (stopHeartbeat c)"
  by (simp add: quiet_def stopHeartbeat_eq)

lemma quiet_startHeartbeat: "quiet c (startHeartbeat c)"
  by (simp add: quiet_def startHeartbeat_eq)

lemma quiet_handleError: "quiet c (handleError e c)"
  by (simp add: quiet_def handleError_def emit_def)

lemma quiet_send: "send d c = Inr c' \<Longrightarrow> quiet c c'"
  by (auto dest!: send_Inr simp: quiet_def)

lemma quiet_ws_close: "quiet c (ws_close w a c)"
  by (simp add: quiet_def ws_close_def Let_def)

lemma quiet_cleanup: "quiet c (cleanup c)"
  by (auto simp: quiet_def cleanup_def clearConnectionTimeout_eq stopHeartbeat_eq clearTimeout_def
      onCleanup_def ws_close_def Let_def split: option.splits)

lemma quiet_intentional: "quiet c (c\<lparr>isIntentionalClose := b\<rparr>)"
  by (simp add: quiet_def)

lemma changes_disconnect: "changes c (disconnect c)"
  unfolding disconnect_def
  by (rule quiet_then_changes [OF quiet_trans [OF quiet_intentional quiet_cleanup] changes_setState])

lemma changes_createConnection: "changes c (snd (createConnection throws c))"
  by (auto simp: changes_def createConnection_def setState_eq clearConnectionTimeout_eq
      handleError_def emit_def setTimeout_def Let_def)

lemma changes_connect: "changes c (snd (connect throws c))"
proof (cases "state c = Connected \<or> state c = Connecting")
  case True
  then show ?thesis by (auto simp: connect_def intro: quiet_changes)
next
  case False
  have "changes (c\<lparr>isIntentionalClose := False\<rparr>)
          (snd (createConnection throws (c\<lparr>isIntentionalClose := False\<rparr>)))"
    by (rule changes_createConnection)
  then have "changes c (snd (createConnection throws (c\<lparr>isIntentionalClose := False\<rparr>)))"
    by (rule quiet_then_changes [OF quiet_intentional])
  with False show ?thesis by (simp add: connect_def split_beta)
qed

lemma quiet_onConnected: "onConnected c = Inr c' \<Longrightarrow> quiet c c'"
  by (auto simp: onConnected_def sendFullSubscription_def split: channel.splits if_splits
      dest: quiet_send)

lemma changes_onopen: "changes c (onopen p c)"
proof -
  define c2 where "c2 = (clearConnectionTimeout c)\<lparr>reconnectAttempts := 0\<rparr>"
  define c4 where "c4 = startHeartbeat (setState Connected c2)"
  have q: "quiet c c2"
    unfolding c2_def by (simp add: quiet_def clearConnectionTimeout_eq)
  have "changes c2 c4"
    unfolding c4_def by (rule changes_then_quiet [OF changes_setState quiet_startHeartbeat])
  with q have c4: "changes c c4" by (rule quiet_then_changes)
  have o: "onopen p c = (case onConnected c4 of
           Inl e \<Rightarrow> c4\<lparr>trace := trace c4 @ [Uncaught e]\<rparr>
         | Inr c5 \<Rightarrow> c5\<lparr>trace := trace c5 @ [Emit Ev_connected, Resolve p]\<rparr>)"
    by (simp add: onopen_def c4_def c2_def Let_def emit_def split: sum.splits)
  show ?thesis
  proof (cases "onConnected c4")
    case (Inl e)
    have "quiet c4 (c4\<lparr>trace := trace c4 @ [Uncaught e]\<rparr>)" by (simp add: quiet_def)
    with c4 show ?thesis unfolding o Inl by (simp add: changes_then_quiet)
  next
    case (Inr c5)
    have "quiet c5 (c5\<lparr>trace := trace c5 @ [Emit Ev_connected, Resolve p]\<rparr>)"
      by (simp add: quiet_def)
    with quiet_onConnected [OF Inr]
    have "quiet c4 (c5\<lparr>trace := trace c5 @ [Emit Ev_connected, Resolve p]\<rparr>)"
      by (rule quiet_trans)
    with c4 show ?thesis unfolding o Inr by (simp add: changes_then_quiet)
  qed
qed

lemma changes_scheduleReconnect: "changes c (scheduleReconnect c)"
  by (auto simp: changes_def scheduleReconnect_def setState_eq handleError_def emit_def
      setTimeout_def Let_def)

lemma changes_onclose: "changes c (onclose code reason c)"
proof -
  define c3 where "c3 = emit (Ev_disconnected code reason) (stopHeartbeat (clearConnectionTimeout c))"
  have q: "quiet c c3"
    unfolding c3_def by (simp add: quiet_def clearConnectionTimeout_eq stopHeartbeat_eq emit_def)
  have "onclose code reason c =
     (if \<not> isIntentionalClose c3 \<and> autoReconnect (options c3)
      then scheduleReconnect c3 else setState Disconnected c3)"
    by (simp add: onclose_def c3_def Let_def)
  then show ?thesis
    using quiet_then_changes [OF q changes_scheduleReconnect]
      quiet_then_changes [OF q changes_setState]
    by simp
qed

lemma quiet_set_readyState: "quiet c (set_readyState w rs c)"
  by (simp add: quiet_def set_readyState_def)

lemma quiet_ids: "quiet c (c\<lparr>ids := xs\<rparr>)"
  by (simp add: quiet_def)

lemma quiet_finish:
  "(\<And>c'. r = Inr c' \<Longrightarrow> quiet c c') \<Longrightarrow> quiet c (snd (finish c r))"
  by (cases r) (simp_all add: finish_def)

lemma quiet_subscribe: "quiet c (snd (subscribe arg c))"
proof (cases "validate_ids (channel c) arg")
  case (Inl e)
  then show ?thesis by (simp add: subscribe_def)
next
  case (Inr xs)
  define new where "new = filter (\<lambda>x. x \<notin> set (ids c)) xs"
  define c1 where "c1 = c\<lparr>ids := fold set_add new (ids c)\<rparr>"
  have q1: "quiet c c1" by (simp add: c1_def quiet_ids)
  have f: "quiet c (snd (finish c1 (send d c1)))" for d
    using quiet_send quiet_trans [OF q1] quiet_finish by blast
  show ?thesis
    using Inr q1 f
    by (simp add: subscribe_def Let_def new_def [symmetric] c1_def [symmetric]
        sendFullSubscription_def split: channel.splits)
qed

lemma quiet_unsubscribe: "quiet c (snd (unsubscribe arg c))"
proof (cases "validate_ids (channel c) arg")
  case (Inl e)
  then show ?thesis by (simp add: unsubscribe_def)
next
  case (Inr xs)
  have f: "quiet c (snd (finish (c\<lparr>ids := ys\<rparr>) (send d (c\<lparr>ids := ys\<rparr>))))" for d ys
    using quiet_send quiet_trans [OF quiet_ids] quiet_finish by blast
  show ?thesis
    using Inr f quiet_ids
    by (simp add: unsubscribe_def Let_def sendFullSubscription_def split: channel.splits)
qed

lemma quiet_addEventCallback: "quiet c (addEventCallback ev cb c)"
  by (simp add: quiet_def addEventCallback_def Let_def)

lemma quiet_clearTimeout: "quiet c (clearTimeout t c)"
  by (simp add: quiet_def clearTimeout_def)

lemma quiet_connection_timeout_fired: "quiet c (connection_timeout_fired p c)"
  by (auto simp: quiet_def connection_timeout_fired_def handleError_def emit_def ws_close_def
      Let_def split: option.splits)

lemma quiet_sendHeartbeat: "quiet c (sendHeartbeat c)"
  by (auto simp: sendHeartbeat_def split: sum.splits dest: quiet_send)

lemma changes_fire: "changes c (fire x throws c)"
proof (cases "kind x")
  case (Connection_timer p)
  then show ?thesis
    using quiet_trans [OF quiet_clearTimeout quiet_connection_timeout_fired]
    by (simp add: fire_def quiet_changes)
next
  case Reconnect_timer
  then show ?thesis
    using quiet_then_changes [OF quiet_clearTimeout changes_createConnection]
    by (simp add: fire_def)
next
  case Heartbeat_timer
  then show ?thesis
    by (simp add: fire_def quiet_changes quiet_sendHeartbeat)
qed

lemma changes_step: "changes c (step e c)"
proof (cases e)
  case (Call_connect b)
  then show ?thesis by (simp add: step_def changes_connect)
next
  case Call_disconnect
  then show ?thesis by (simp add: step_def changes_disconnect)
next
  case (Call_subscribe a)
  then show ?thesis by (simp add: step_def quiet_changes quiet_subscribe)
next
  case (Call_unsubscribe a)
  then show ?thesis by (simp add: step_def quiet_changes quiet_unsubscribe)
next
  case (Call_on ev cb)
  then show ?thesis by (simp add: step_def quiet_changes quiet_addEventCallback)
next
  case (Ws_open w)
  then show ?thesis
    using quiet_then_changes [OF quiet_set_readyState changes_onopen]
    by (simp add: step_def Let_def quiet_changes quiet_set_readyState)
next
  case (Ws_closed w code reason)
  then show ?thesis
    using quiet_then_changes [OF quiet_set_readyState changes_onclose]
    by (simp add: step_def Let_def quiet_changes quiet_set_readyState)
next
  case (Ws_error w)
  then show ?thesis by (simp add: step_def onerror_def quiet_changes quiet_handleError)
next
  case (Ws_message w t)
  then show ?thesis
    by (simp add: step_def handleIncomingMessage_def emit_def quiet_changes quiet_def)
next
  case (Timer_fired t b)
  then show ?thesis
    by (simp add: step_def changes_fire quiet_changes split: option.splits)
qed

section \<open>Tidy clients stay tidy\<close>

lemma same_shape_tidy: "same_shape c c' \<Longrightarrow> tidy c \<Longrightarrow> tidy c'"
proof -
  assume s: "same_shape c c'" and t: "tidy c"
  from s have eq: "state c' = state c" "ws c' = ws c" "sockets c' = sockets c"
    "reconnectTimer c' = reconnectTimer c" and sub: "set (timers c') \<subseteq> set (timers c)"
    by (simp_all add: same_shape_def)
  have l: "live c' w = live c w" for w
    by (simp add: live_def eq)
  from t sub show "tidy c'"
    unfolding tidy_def l eq by blast
qed

lemma same_shape_refl [simp]: "same_shape c c"
  by (simp add: same_shape_def)

lemma same_shape_trans: "same_shape a b \<Longrightarrow> same_shape b c \<Longrightarrow> same_shape a c"
  by (auto simp: same_shape_def)

lemma same_shape_send: "send d c = Inr c' \<Longrightarrow> same_shape c c'"
  by (auto dest!: send_Inr simp: same_shape_def)

lemma same_shape_finish:
  "(\<And>c'. r = Inr c' \<Longrightarrow> same_shape c c') \<Longrightarrow> same_shape c (snd (finish c r))"
  by (cases r) (simp_all add: finish_def)

lemma same_shape_ids: "same_shape c (c\<lparr>ids := xs\<rparr>)"
  by (simp add: same_shape_def)

lemma same_shape_subscribe: "same_shape c (snd (subscribe arg c))"
proof (cases "validate_ids (channel c) arg")
  case (Inl e)
  then show ?thesis by (simp add: subscribe_def)
next
  case (Inr xs)
  define new where "new = filter (\<lambda>x. x \<notin> set (ids c)) xs"
  define c1 where "c1 = c\<lparr>ids := fold set_add new (ids c)\<rparr>"
  have s1: "same_shape c c1" by (simp add: c1_def same_shape_ids)
  have "same_shape c1 (snd (finish c1 r))" if "\<And>c'. r = Inr c' \<Longrightarrow> same_shape c1 c'" for r
    using that by (rule same_shape_finish)
  then have f: "same_shape c (snd (finish c1 (send d c1)))" for d
    using same_shape_send same_shape_trans [OF s1] by blast
  show ?thesis
    using Inr s1 f
    by (simp add: subscribe_def Let_def new_def [symmetric] c1_def [symmetric]
        sendFullSubscription_def split: channel.splits)
qed

lemma same_shape_unsubscribe: "same_shape c (snd (unsubscribe arg c))"
proof (cases "validate_ids (channel c) arg")
  case (Inl e)
  then show ?thesis by (simp add: unsubscribe_def)
next
  case (Inr xs)
  have f: "same_shape c (snd (finish (c\<lparr>ids := ys\<rparr>) (send d (c\<lparr>ids := ys\<rparr>))))" for d ys
    using same_shape_send same_shape_trans [OF same_shape_ids] same_shape_finish by blast
  show ?thesis
    using Inr f same_shape_ids
    by (simp add: unsubscribe_def Let_def sendFullSubscription_def split: channel.splits)
qed

lemma same_shape_addEventCallback: "same_shape c (addEventCallback ev cb c)"
  by (simp add: same_shape_def addEventCallback_def Let_def)

lemma same_shape_sendHeartbeat: "same_shape c (sendHeartbeat c)"
  by (auto simp: sendHeartbeat_def split: sum.splits dest: same_shape_send)

lemma same_shape_onerror: "same_shape c (onerror c)"
  by (simp add: same_shape_def onerror_def handleError_def emit_def)

lemma same_shape_message: "same_shape c (handleIncomingMessage t c)"
  by (simp add: same_shape_def handleIncomingMessage_def emit_def)

lemma same_shape_onConnected: "onConnected c = Inr c' \<Longrightarrow> same_shape c c'"
  by (auto simp: onConnected_def sendFullSubscription_def split: channel.splits if_splits
      dest: same_shape_send)

lemma tidyI:
  assumes "\<And>w. ws c = Some w \<Longrightarrow> w < length (sockets c)"
    and "\<And>w. live c w \<Longrightarrow> ws c = Some w \<and> (state c = Connecting \<or> state c = Connected) \<and>
          (readyState (sockets c ! w) = CONNECTING \<longrightarrow> state c = Connecting)"
    and "\<And>x. x \<in> set (timers c) \<Longrightarrow> kind x = Reconnect_timer \<Longrightarrow>
          state c = Reconnecting \<and> reconnectTimer c = Some (tid x)"
  shows "tidy c"
  unfolding tidy_def using assms by blast

lemma tidy_ws: "tidy c \<Longrightarrow> ws c = Some w \<Longrightarrow> w < length (sockets c)"
  unfolding tidy_def by blast

lemma tidy_live:
  "tidy c \<Longrightarrow> live c w \<Longrightarrow> ws c = Some w \<and> (state c = Connecting \<or> state c = Connected) \<and>
          (readyState (sockets c ! w) = CONNECTING \<longrightarrow> state c = Connecting)"
  unfolding tidy_def by blast

lemma tidy_reconnect_timer:
  "tidy c \<Longrightarrow> x \<in> set (timers c) \<Longrightarrow> kind x = Reconnect_timer \<Longrightarrow>
     state c = Reconnecting \<and> reconnectTimer c = Some (tid x)"
  unfolding tidy_def by blast

lemma createConnection_shape:
  "state (snd (createConnection throws c)) = Connecting"
  "reconnectTimer (snd (createConnection throws c)) = reconnectTimer c"
  "throws \<Longrightarrow> ws (snd (createConnection throws c)) = ws c"
  "throws \<Longrightarrow> sockets (snd (createConnection throws c)) = sockets c"
  "throws \<Longrightarrow> set (timers (snd (createConnection throws c))) \<subseteq> set (timers c)"
  "\<not> throws \<Longrightarrow> ws (snd (createConnection throws c)) = Some (length (sockets c))"
  "\<not> throws \<Longrightarrow> sockets (snd (createConnection throws c)) = sockets c @
      [\<lparr>readyState = CONNECTING, handlers = True, promise = nextPromise c\<rparr>]"
  "\<not> throws \<Longrightarrow> timers (snd (createConnection throws c)) = timers c @
      [\<lparr>tid = nextTimer c, kind = Connection_timer (nextPromise c)\<rparr>]"
  using set_drop_timer [of "connectionTimer c" "timers c"]
  by (simp_all add: createConnection_def setState_eq clearConnectionTimeout_eq
      handleError_def emit_def setTimeout_def Let_def)

lemma tidy_createConnection:
  assumes t: "tidy c" and nl: "\<And>w. \<not> live c w"
    and nr: "\<And>x. x \<in> set (timers c) \<Longrightarrow> kind x \<noteq> Reconnect_timer"
  shows "tidy (snd (createConnection throws c))"
proof (cases throws)
  case True
  note sh = createConnection_shape(1,2) [of throws c] createConnection_shape(3-5) [OF True, of c]
  have l: "live (snd (createConnection throws c)) w = live c w" for w
    by (simp add: live_def sh)
  show ?thesis
  proof (rule tidyI)
    fix w assume "ws (snd (createConnection throws c)) = Some w"
    then show "w < length (sockets (snd (createConnection throws c)))"
      using tidy_ws [OF t] by (simp add: sh)
  next
    fix w assume "live (snd (createConnection throws c)) w"
    with nl l show "ws (snd (createConnection throws c)) = Some w \<and>
      (state (snd (createConnection throws c)) = Connecting \<or>
       state (snd (createConnection throws c)) = Connected) \<and>
      (readyState (sockets (snd (createConnection throws c)) ! w) = CONNECTING \<longrightarrow>
       state (snd (createConnection throws c)) = Connecting)" by simp
  next
    fix x assume "x \<in> set (timers (snd (createConnection throws c)))" "kind x = Reconnect_timer"
    with sh(5) nr show "state (snd (createConnection throws c)) = Reconnecting \<and>
        reconnectTimer (snd (createConnection throws c)) = Some (tid x)" by blast
  qed
next
  case False
  note sh = createConnection_shape(1,2) [of throws c] createConnection_shape(6-8) [OF False, of c]
  show ?thesis
  proof (rule tidyI)
    fix w assume "ws (snd (createConnection throws c)) = Some w"
    then show "w < length (sockets (snd (createConnection throws c)))"
      by (simp add: sh)
  next
    fix w assume lv: "live (snd (createConnection throws c)) w"
    have "w = length (sockets c)"
    proof (rule ccontr)
      assume "w \<noteq> length (sockets c)"
      with lv have "live c w" by (auto simp: live_def sh nth_append less_Suc_eq)
      with nl show False by simp
    qed
    then show "ws (snd (createConnection throws c)) = Some w \<and>
      (state (snd (createConnection throws c)) = Connecting \<or>
       state (snd (createConnection throws c)) = Connected) \<and>
      (readyState (sockets (snd (createConnection throws c)) ! w) = CONNECTING \<longrightarrow>
       state (snd (createConnection throws c)) = Connecting)" by (simp add: sh)
  next
    fix x assume "x \<in> set (timers (snd (createConnection throws c)))" "kind x = Reconnect_timer"
    with nr show "state (snd (createConnection throws c)) = Reconnecting \<and>
        reconnectTimer (snd (createConnection throws c)) = Some (tid x)"
      by (auto simp: sh)
  qed
qed

lemma same_shape_clearTimeout: "same_shape c (clearTimeout t c)"
  by (auto simp: same_shape_def clearTimeout_def)

lemma same_shape_intentional: "same_shape c (c\<lparr>isIntentionalClose := b\<rparr>)"
  by (simp add: same_shape_def)

lemma live_same:
  "sockets c' = sockets c \<Longrightarrow> live c' w = live c w"
  by (simp add: live_def)

lemma onopen_shape:
  "state (onopen p c) = Connected" "ws (onopen p c) = ws c" "sockets (onopen p c) = sockets c"
  "reconnectTimer (onopen p c) = reconnectTimer c"
  "x \<in> set (timers (onopen p c)) \<Longrightarrow> x \<in> set (timers c) \<or> kind x = Heartbeat_timer"
proof -
  define c4 where "c4 = startHeartbeat (setState Connected
     ((clearConnectionTimeout c)\<lparr>reconnectAttempts := 0\<rparr>))"
  have c4: "state c4 = Connected" "ws c4 = ws c" "sockets c4 = sockets c"
    "reconnectTimer c4 = reconnectTimer c"
    "timers c4 = drop_timer (heartbeatTimer c) (drop_timer (connectionTimer c) (timers c)) @
        [\<lparr>tid = nextTimer c, kind = Heartbeat_timer\<rparr>]"
    by (simp_all add: c4_def startHeartbeat_eq setState_eq clearConnectionTimeout_eq)
  have sub: "set (timers c4) \<subseteq> set (timers c) \<union> {x. kind x = Heartbeat_timer}"
    unfolding c4(5) using set_drop_timer [of "heartbeatTimer c"]
      set_drop_timer [of "connectionTimer c" "timers c"] by auto
  have "\<exists>c5 tr. same_shape c4 c5 \<and> onopen p c = c5\<lparr>trace := tr\<rparr>"
  proof (cases "onConnected c4")
    case (Inl e)
    then have "onopen p c = c4\<lparr>trace := trace c4 @ [Uncaught e]\<rparr>"
      by (simp add: onopen_def c4_def Let_def)
    then show ?thesis using same_shape_refl by blast
  next
    case (Inr c5)
    then have "onopen p c = c5\<lparr>trace := trace c5 @ [Emit Ev_connected, Resolve p]\<rparr>"
      by (simp add: onopen_def c4_def Let_def emit_def)
    then show ?thesis using same_shape_onConnected [OF Inr] by blast
  qed
  then obtain c5 tr where s: "same_shape c4 c5" and o: "onopen p c = c5\<lparr>trace := tr\<rparr>"
    by blast
  from s c4 sub show "state (onopen p c) = Connected" "ws (onopen p c) = ws c"
    "sockets (onopen p c) = sockets c" "reconnectTimer (onopen p c) = reconnectTimer c"
    unfolding o by (simp_all add: same_shape_def)
  assume "x \<in> set (timers (onopen p c))"
  with s sub show "x \<in> set (timers c) \<or> kind x = Heartbeat_timer"
    unfolding o by (auto simp: same_shape_def)
qed

lemma scheduleReconnect_shape:
  "ws (scheduleReconnect c) = ws c" "sockets (scheduleReconnect c) = sockets c"
  "state (scheduleReconnect c) = Disconnected \<or> state (scheduleReconnect c) = Reconnecting"
  "x \<in> set (timers (scheduleReconnect c)) \<Longrightarrow> kind x = Reconnect_timer \<Longrightarrow>
     x \<in> set (timers c) \<or>
     (state (scheduleReconnect c) = Reconnecting \<and>
      reconnectTimer (scheduleReconnect c) = Some (tid x))"
  by (auto simp: scheduleReconnect_def setState_eq handleError_def emit_def setTimeout_def Let_def)

lemma onclose_shape:
  "ws (onclose code reason c) = ws c" "sockets (onclose code reason c) = sockets c"
  "state (onclose code reason c) = Disconnected \<or>
   state (onclose code reason c) = Reconnecting"
  "x \<in> set (timers (onclose code reason c)) \<Longrightarrow> kind x = Reconnect_timer \<Longrightarrow>
     x \<in> set (timers c) \<or>
     (state (onclose code reason c) = Reconnecting \<and>
      reconnectTimer (onclose code reason c) = Some (tid x))"
proof -
  define c3 where "c3 = emit (Ev_disconnected code reason)
     (stopHeartbeat (clearConnectionTimeout c))"
  have c3: "ws c3 = ws c" "sockets c3 = sockets c" "set (timers c3) \<subseteq> set (timers c)"
    using set_drop_timer [of "heartbeatTimer c"]
      set_drop_timer [of "connectionTimer c" "timers c"]
    by (auto simp: c3_def emit_def stopHeartbeat_eq clearConnectionTimeout_eq)
  have o: "onclose code reason c =
     (if \<not> isIntentionalClose c3 \<and> autoReconnect (options c3)
      then scheduleReconnect c3 else setState Disconnected c3)"
    by (simp add: onclose_def c3_def Let_def)
  show "ws (onclose code reason c) = ws c" "sockets (onclose code reason c) = sockets c"
    "state (onclose code reason c) = Disconnected \<or>
     state (onclose code reason c) = Reconnecting"
    unfolding o using c3 scheduleReconnect_shape(3) [of c3]
    by (simp_all add: scheduleReconnect_shape setState_eq)
  assume x: "x \<in> set (timers (onclose code reason c))" "kind x = Reconnect_timer"
  show "x \<in> set (timers c) \<or>
     (state (onclose code reason c) = Reconnecting \<and>
      reconnectTimer (onclose code reason c) = Some (tid x))"
  proof (cases "\<not> isIntentionalClose c3 \<and> autoReconnect (options c3)")
    case True
    with x o have "x \<in> set (timers (scheduleReconnect c3))" by simp
    from scheduleReconnect_shape(4) [OF this x(2)] c3(3) True o show ?thesis by auto
  next
    case False
    with x o c3(3) show ?thesis by (auto simp: setState_eq)
  qed
qed

lemma tidy_quiescent:
  assumes "\<And>w. ws c = Some w \<Longrightarrow> w < length (sockets c)" "\<And>w. \<not> live c w"
    "\<And>x. x \<in> set (timers c) \<Longrightarrow> kind x = Reconnect_timer \<Longrightarrow>
          state c = Reconnecting \<and> reconnectTimer c = Some (tid x)"
  shows "tidy c"
  using assms by (intro tidyI) blast+

lemma cleanup_eq:
  assumes "\<And>w. ws c = Some w \<Longrightarrow> w < length (sockets c)"
  shows "cleanup c =
     c\<lparr>timers := drop_timer (reconnectTimer c) (drop_timer (heartbeatTimer c)
                   (drop_timer (connectionTimer c) (timers c))),
       connectionTimer := None, heartbeatTimer := None, reconnectTimer := None,
       sockets := cleanup_sockets (ws c) (sockets c),
       trace := trace c @ cleanup_effects (ws c) (sockets c),
       ws := None, reconnectAttempts := 0, ids := [], eventCallbacks := []\<rparr>"
proof (cases c)
  case (fields ch au op wsf st ra rt ht ct ic idl ec ss ts nt np tr)
  show ?thesis
  proof (cases wsf)
    case None
    then show ?thesis using fields
      by (cases rt)
         (simp_all add: cleanup_def clearConnectionTimeout_eq stopHeartbeat_eq clearTimeout_def
            onCleanup_def cleanup_sockets_def cleanup_effects_def Let_def)
  next
    case (Some w)
    with assms fields have "w < length ss" by simp
    with Some fields show ?thesis
      by (cases rt)
         (simp_all add: cleanup_def clearConnectionTimeout_eq stopHeartbeat_eq clearTimeout_def
            onCleanup_def cleanup_sockets_def cleanup_effects_def ws_close_def Let_def)
  qed
qed

lemma cleanup_live:
  assumes "\<And>w. ws c = Some w \<Longrightarrow> w < length (sockets c)" "live (cleanup c) w"
  shows "live c w \<and> ws c \<noteq> Some w"
proof -
  have sk: "sockets (cleanup c) = cleanup_sockets (ws c) (sockets c)"
    by (simp add: cleanup_eq [OF assms(1)])
  show ?thesis
  proof (cases "ws c")
    case None
    with assms(2) show ?thesis
      by (simp add: live_def sk cleanup_sockets_def)
  next
    case (Some v)
    with assms(1) have v: "v < length (sockets c)" by simp
    show ?thesis
    proof (cases "w = v")
      case True
      with assms(2) Some v show ?thesis
        by (simp add: live_def sk cleanup_sockets_def)
    next
      case False
      with assms(2) Some v show ?thesis
        by (simp add: live_def sk cleanup_sockets_def)
    qed
  qed
qed

lemma tidy_disconnect:
  assumes t: "tidy c"
  shows "tidy (disconnect c)"
proof -
  define c0 where "c0 = c\<lparr>isIntentionalClose := True\<rparr>"
  have t0: "tidy c0"
    unfolding c0_def using same_shape_intentional t by (rule same_shape_tidy)
  have r: "\<And>w. ws c0 = Some w \<Longrightarrow> w < length (sockets c0)"
    using tidy_ws [OF t0] .
  note eq = cleanup_eq [OF r]
  have d: "disconnect c = setState Disconnected (cleanup c0)"
    by (simp add: disconnect_def c0_def)
  have sh: "ws (disconnect c) = None" "sockets (disconnect c) = sockets (cleanup c0)"
    "timers (disconnect c) = timers (cleanup c0)" "state (disconnect c) = Disconnected"
    unfolding d by (simp_all add: setState_eq eq)
  show ?thesis
  proof (rule tidy_quiescent)
    fix w assume "ws (disconnect c) = Some w"
    then show "w < length (sockets (disconnect c))" by (simp add: sh)
  next
    fix w show "\<not> live (disconnect c) w"
    proof
      assume "live (disconnect c) w"
      then have "live (cleanup c0) w" by (simp add: live_def sh)
      from cleanup_live [OF r this] tidy_live [OF t0] show False by blast
    qed
  next
    fix x assume x: "x \<in> set (timers (disconnect c))" "kind x = Reconnect_timer"
    then have "x \<in> set (drop_timer (reconnectTimer c0) (drop_timer (heartbeatTimer c0)
                   (drop_timer (connectionTimer c0) (timers c0))))"
      by (simp add: sh eq)
    then have m: "x \<in> set (drop_timer (reconnectTimer c0) (timers c0))"
      using set_drop_timer [of "heartbeatTimer c0"] set_drop_timer [of "connectionTimer c0"]
      by (cases "reconnectTimer c0") auto
    then have "x \<in> set (timers c0)" using set_drop_timer by blast
    from tidy_reconnect_timer [OF t0 this x(2)] m have False by simp
    then show "state (disconnect c) = Reconnecting \<and>
       reconnectTimer (disconnect c) = Some (tid x)" ..
  qed
qed

lemma tidy_connect:
  assumes t: "tidy c" and nr: "state c \<noteq> Reconnecting"
  shows "tidy (snd (connect throws c))"
proof (cases "state c = Connected \<or> state c = Connecting")
  case True
  with t show ?thesis by (auto simp: connect_def)
next
  case False
  define c0 where "c0 = c\<lparr>isIntentionalClose := False\<rparr>"
  have t0: "tidy c0"
    unfolding c0_def using same_shape_intentional t by (rule same_shape_tidy)
  have s0: "state c0 = state c" by (simp add: c0_def)
  have "tidy (snd (createConnection throws c0))"
  proof (rule tidy_createConnection [OF t0])
    fix w show "\<not> live c0 w"
      using tidy_live [OF t0, of w] False s0 by auto
  next
    fix x assume "x \<in> set (timers c0)"
    then show "kind x \<noteq> Reconnect_timer"
      using tidy_reconnect_timer [OF t0, of x] nr s0 by auto
  qed
  with False show ?thesis
    by (simp add: connect_def c0_def split_beta)
qed

lemma set_readyState_shape:
  "state (set_readyState w rs c) = state c" "ws (set_readyState w rs c) = ws c"
  "timers (set_readyState w rs c) = timers c"
  "reconnectTimer (set_readyState w rs c) = reconnectTimer c"
  "sockets (set_readyState w rs c) = (sockets c)[w := (sockets c ! w)\<lparr>readyState := rs\<rparr>]"
  by (simp_all add: set_readyState_def)

lemma live_set_readyState:
  assumes "live (set_readyState w rs c) v" "v \<noteq> w \<or> \<not> handlers (sockets c ! w)"
  shows "live c v \<and> v \<noteq> w"
  using assms by (cases "v = w") (auto simp: live_def set_readyState_shape)

lemma tidy_set_readyState_detached:
  assumes t: "tidy c" and d: "\<not> handlers (sockets c ! w)"
  shows "tidy (set_readyState w rs c)"
proof (rule tidyI)
  fix v assume "ws (set_readyState w rs c) = Some v"
  then show "v < length (sockets (set_readyState w rs c))"
    using tidy_ws [OF t] by (simp add: set_readyState_shape)
next
  fix v assume "live (set_readyState w rs c) v"
  with d have l: "live c v" "v \<noteq> w" using live_set_readyState by blast+
  from tidy_live [OF t l(1)] l(2)
  show "ws (set_readyState w rs c) = Some v \<and>
    (state (set_readyState w rs c) = Connecting \<or> state (set_readyState w rs c) = Connected) \<and>
    (readyState (sockets (set_readyState w rs c) ! v) = CONNECTING \<longrightarrow>
     state (set_readyState w rs c) = Connecting)"
    by (simp add: set_readyState_shape)
next
  fix x assume "x \<in> set (timers (set_readyState w rs c))" "kind x = Reconnect_timer"
  then show "state (set_readyState w rs c) = Reconnecting \<and>
       reconnectTimer (set_readyState w rs c) = Some (tid x)"
    using tidy_reconnect_timer [OF t] by (simp add: set_readyState_shape)
qed

lemma tidy_open:
  assumes t: "tidy c"
  shows "tidy (step (Ws_open w) c)"
proof (cases "w < length (sockets c) \<and> readyState (sockets c ! w) = CONNECTING")
  case False
  with t show ?thesis by (auto simp: step_def)
next
  case g: True
  define c1 where "c1 = set_readyState w OPEN c"
  show ?thesis
  proof (cases "handlers (sockets c ! w)")
    case False
    with g have "step (Ws_open w) c = c1" by (simp add: step_def c1_def Let_def)
    with tidy_set_readyState_detached [OF t False] show ?thesis by (simp add: c1_def)
  next
    case True
    define c' where "c' = onopen (promise (sockets c ! w)) c1"
    from g True have s: "step (Ws_open w) c = c'" by (simp add: step_def c1_def c'_def Let_def)
    from g True have lw: "live c w" by (simp add: live_def)
    note cw = tidy_live [OF t lw]
    have sh: "state c' = Connected" "ws c' = Some w"
      "sockets c' = (sockets c)[w := (sockets c ! w)\<lparr>readyState := OPEN\<rparr>]"
      "reconnectTimer c' = reconnectTimer c"
      unfolding c'_def c1_def using cw by (simp_all add: onopen_shape set_readyState_shape)
    have tm: "x \<in> set (timers c') \<Longrightarrow> x \<in> set (timers c) \<or> kind x = Heartbeat_timer" for x
      unfolding c'_def c1_def using onopen_shape(5) [of x _ "set_readyState w OPEN c"]
      by (simp add: set_readyState_shape)
    have "tidy c'"
    proof (rule tidyI)
      fix v assume "ws c' = Some v"
      with g show "v < length (sockets c')" by (simp add: sh)
    next
      fix v assume l: "live c' v"
      have "v = w"
      proof (rule ccontr)
        assume n: "v \<noteq> w"
        with l have "live c v" by (simp add: live_def sh)
        from tidy_live [OF t this] cw n show False by simp
      qed
      with g show "ws c' = Some v \<and> (state c' = Connecting \<or> state c' = Connected) \<and>
        (readyState (sockets c' ! v) = CONNECTING \<longrightarrow> state c' = Connecting)"
        by (simp add: sh)
    next
      fix x assume x: "x \<in> set (timers c')" "kind x = Reconnect_timer"
      from tm [OF x(1)] x(2) have "x \<in> set (timers c)" by auto
      from tidy_reconnect_timer [OF t this x(2)] cw g have False by simp
      then show "state c' = Reconnecting \<and> reconnectTimer c' = Some (tid x)" ..
    qed
    with s show ?thesis by simp
  qed
qed

lemma tidy_closed:
  assumes t: "tidy c"
  shows "tidy (step (Ws_closed w code reason) c)"
proof (cases "w < length (sockets c) \<and> readyState (sockets c ! w) \<noteq> CLOSED")
  case False
  with t show ?thesis by (auto simp: step_def)
next
  case g: True
  define c1 where "c1 = set_readyState w CLOSED c"
  show ?thesis
  proof (cases "handlers (sockets c ! w)")
    case False
    with g have "step (Ws_closed w code reason) c = c1"
      by (simp add: step_def c1_def Let_def)
    with tidy_set_readyState_detached [OF t False] show ?thesis by (simp add: c1_def)
  next
    case True
    define c' where "c' = onclose code reason c1"
    from g True have s: "step (Ws_closed w code reason) c = c'"
      by (simp add: step_def c1_def c'_def Let_def)
    from g True have lw: "live c w" by (simp add: live_def)
    note cw = tidy_live [OF t lw]
    have sh: "ws c' = Some w"
      "sockets c' = (sockets c)[w := (sockets c ! w)\<lparr>readyState := CLOSED\<rparr>]"
      unfolding c'_def c1_def using cw by (simp_all add: onclose_shape set_readyState_shape)
    have nr: "x \<in> set (timers c) \<Longrightarrow> kind x \<noteq> Reconnect_timer" for x
      using tidy_reconnect_timer [OF t, of x] cw by auto
    have "tidy c'"
    proof (rule tidy_quiescent)
      fix v assume "ws c' = Some v"
      with g show "v < length (sockets c')" by (simp add: sh)
    next
      fix v show "\<not> live c' v"
      proof
        assume l: "live c' v"
        with g have n: "v \<noteq> w" by (auto simp: live_def sh)
        with l have "live c v" by (simp add: live_def sh)
        from tidy_live [OF t this] cw n show False by simp
      qed
    next
      fix x assume x: "x \<in> set (timers c')" "kind x = Reconnect_timer"
      from onclose_shape(4) [OF x [unfolded c'_def]] nr [of x] x(2)
      show "state c' = Reconnecting \<and> reconnectTimer c' = Some (tid x)"
        by (auto simp: c'_def c1_def set_readyState_shape)
    qed
    with s show ?thesis by simp
  qed
qed

lemma connection_timeout_fired_shape:
  "state (connection_timeout_fired p c) = state c" "ws (connection_timeout_fired p c) = ws c"
  "timers (connection_timeout_fired p c) = timers c"
  "reconnectTimer (connection_timeout_fired p c) = reconnectTimer c"
  "sockets (connection_timeout_fired p c) =
     (case ws c of None \<Rightarrow> sockets c
      | Some v \<Rightarrow> (sockets c)[v := (if readyState (sockets c ! v) = CONNECTING \<or>
                                        readyState (sockets c ! v) = OPEN
                                     then (sockets c ! v)\<lparr>readyState := CLOSING\<rparr>
                                     else sockets c ! v)])"
  by (simp_all add: connection_timeout_fired_def handleError_def emit_def ws_close_def Let_def
      split: option.splits)

lemma tidy_connection_timeout_fired:
  assumes t: "tidy c"
  shows "tidy (connection_timeout_fired p c)"
proof -
  note sh = connection_timeout_fired_shape [of p c]
  have lv: "live c v \<and> (readyState (sockets (connection_timeout_fired p c) ! v) = CONNECTING
              \<longrightarrow> readyState (sockets c ! v) = CONNECTING)"
    if "live (connection_timeout_fired p c) v" for v
  proof (cases "ws c")
    case None
    with that show ?thesis by (simp add: live_def sh)
  next
    case (Some u)
    with that show ?thesis
      by (cases "v = u") (auto simp: live_def sh split: if_splits)
  qed
  show ?thesis
  proof (rule tidyI)
    fix v assume "ws (connection_timeout_fired p c) = Some v"
    then show "v < length (sockets (connection_timeout_fired p c))"
      using tidy_ws [OF t, of v] by (simp add: sh split: option.splits)
  next
    fix v assume "live (connection_timeout_fired p c) v"
    from lv [OF this] tidy_live [OF t, of v]
    show "ws (connection_timeout_fired p c) = Some v \<and>
      (state (connection_timeout_fired p c) = Connecting \<or>
       state (connection_timeout_fired p c) = Connected) \<and>
      (readyState (sockets (connection_timeout_fired p c) ! v) = CONNECTING \<longrightarrow>
       state (connection_timeout_fired p c) = Connecting)"
      by (simp add: sh(1,2))
  next
    fix x assume "x \<in> set (timers (connection_timeout_fired p c))" "kind x = Reconnect_timer"
    then show "state (connection_timeout_fired p c) = Reconnecting \<and>
       reconnectTimer (connection_timeout_fired p c) = Some (tid x)"
      using tidy_reconnect_timer [OF t, of x] by (simp add: sh)
  qed
qed

lemma tidy_fire:
  assumes t: "tidy c" and x: "x \<in> set (timers c)"
  shows "tidy (fire x throws c)"
proof (cases "kind x")
  case (Connection_timer p)
  have "tidy (clearTimeout (tid x) c)"
    using same_shape_clearTimeout t by (rule same_shape_tidy)
  then show ?thesis
    using Connection_timer by (simp add: fire_def tidy_connection_timeout_fired)
next
  case Reconnect_timer
  define c1 where "c1 = clearTimeout (tid x) c"
  have t1: "tidy c1"
    unfolding c1_def using same_shape_clearTimeout t by (rule same_shape_tidy)
  note rx = tidy_reconnect_timer [OF t x Reconnect_timer]
  have s1: "state c1 = Reconnecting" "reconnectTimer c1 = Some (tid x)"
    "timers c1 = filter (\<lambda>y. tid y \<noteq> tid x) (timers c)"
    using rx by (simp_all add: c1_def clearTimeout_def)
  have "tidy (snd (createConnection throws c1))"
  proof (rule tidy_createConnection [OF t1])
    fix w show "\<not> live c1 w"
      using tidy_live [OF t1, of w] s1(1) by auto
  next
    fix y assume y: "y \<in> set (timers c1)"
    show "kind y \<noteq> Reconnect_timer"
    proof
      assume "kind y = Reconnect_timer"
      from tidy_reconnect_timer [OF t1 y this] s1(2) have "tid y = tid x" by simp
      with y s1(3) show False by simp
    qed
  qed
  then show ?thesis
    using Reconnect_timer by (simp add: fire_def c1_def)
next
  case Heartbeat_timer
  then show ?thesis
    using same_shape_tidy [OF same_shape_sendHeartbeat t] t by (simp add: fire_def)
qed

lemma tidy_step:
  assumes t: "tidy c" and a: "\<not> connect_while_reconnecting e c"
  shows "tidy (step e c)"
proof (cases e)
  case (Call_connect b)
  with a have "state c \<noteq> Reconnecting" by (simp add: connect_while_reconnecting_def)
  from tidy_connect [OF t this] Call_connect show ?thesis by (simp add: step_def)
next
  case Call_disconnect
  with tidy_disconnect [OF t] show ?thesis by (simp add: step_def)
next
  case (Call_subscribe x)
  with same_shape_tidy [OF same_shape_subscribe t] show ?thesis by (simp add: step_def)
next
  case (Call_unsubscribe x)
  with same_shape_tidy [OF same_shape_unsubscribe t] show ?thesis by (simp add: step_def)
next
  case (Call_on ev cb)
  with same_shape_tidy [OF same_shape_addEventCallback t] show ?thesis by (simp add: step_def)
next
  case (Ws_open w)
  with tidy_open [OF t] show ?thesis by simp
next
  case (Ws_closed w code reason)
  with tidy_closed [OF t] show ?thesis by simp
next
  case (Ws_error w)
  with same_shape_tidy [OF same_shape_onerror t] t show ?thesis by (simp add: step_def)
next
  case (Ws_message w m)
  with same_shape_tidy [OF same_shape_message t] t show ?thesis by (simp add: step_def)
next
  case (Timer_fired n b)
  show ?thesis
  proof (cases "find (\<lambda>x. tid x = n) (timers c)")
    case None
    with Timer_fired t show ?thesis by (simp add: step_def)
  next
    case (Some x)
    then have "x \<in> set (timers c)" by (auto simp: find_Some_iff)
    from tidy_fire [OF t this] Some Timer_fired show ?thesis by (simp add: step_def)
  qed
qed

lemma edge_step:
  assumes t: "tidy c" and a: "\<not> connect_while_reconnecting e c"
  shows "state (step e c) = state c \<or> code_edge (state c) (state (step e c))"
proof (cases e)
  case (Call_connect b)
  with a have "state c \<noteq> Reconnecting" by (simp add: connect_while_reconnecting_def)
  then show ?thesis
    using Call_connect createConnection_shape(1) [of b "c\<lparr>isIntentionalClose := False\<rparr>"]
    by (cases "state c") (auto simp: step_def connect_def split_beta)
next
  case Call_disconnect
  then show ?thesis by (simp add: step_def disconnect_fields)
next
  case (Call_subscribe x)
  with same_shape_subscribe [of c x] show ?thesis by (simp add: step_def same_shape_def)
next
  case (Call_unsubscribe x)
  with same_shape_unsubscribe [of c x] show ?thesis by (simp add: step_def same_shape_def)
next
  case (Call_on ev cb)
  with same_shape_addEventCallback [of c ev cb] show ?thesis
    by (simp add: step_def same_shape_def)
next
  case (Ws_open w)
  show ?thesis
  proof (cases "w < length (sockets c) \<and> readyState (sockets c ! w) = CONNECTING
      \<and> handlers (sockets c ! w)")
    case True
    then have "live c w" by (simp add: live_def)
    from tidy_live [OF t this] True have "state c = Connecting" by simp
    with True Ws_open show ?thesis
      by (simp add: step_def Let_def onopen_shape)
  next
    case False
    with Ws_open show ?thesis by (auto simp: step_def Let_def set_readyState_shape)
  qed
next
  case (Ws_closed w code reason)
  show ?thesis
  proof (cases "w < length (sockets c) \<and> readyState (sockets c ! w) \<noteq> CLOSED
      \<and> handlers (sockets c ! w)")
    case True
    then have "live c w" by (simp add: live_def)
    from tidy_live [OF t this] have "state c = Connecting \<or> state c = Connected" by simp
    with True Ws_closed onclose_shape(3) [of code reason "set_readyState w CLOSED c"]
    show ?thesis
      by (auto simp: step_def Let_def)
  next
    case False
    with Ws_closed show ?thesis by (auto simp: step_def Let_def set_readyState_shape)
  qed
next
  case (Ws_error w)
  with same_shape_onerror [of c] show ?thesis by (simp add: step_def same_shape_def)
next
  case (Ws_message w m)
  with same_shape_message [of c m] show ?thesis by (simp add: step_def same_shape_def)
next
  case (Timer_fired n b)
  show ?thesis
  proof (cases "find (\<lambda>x. tid x = n) (timers c)")
    case None
    with Timer_fired show ?thesis by (simp add: step_def)
  next
    case (Some x)
    then have x: "x \<in> set (timers c)" by (auto simp: find_Some_iff)
    show ?thesis
    proof (cases "kind x")
      case (Connection_timer p)
      with Some Timer_fired show ?thesis
        by (simp add: step_def fire_def connection_timeout_fired_shape clearTimeout_def)
    next
      case Reconnect_timer
      from tidy_reconnect_timer [OF t x this] have "state c = Reconnecting" by simp
      with Reconnect_timer Some Timer_fired show ?thesis
        by (simp add: step_def fire_def createConnection_shape)
    next
      case Heartbeat_timer
      with Some Timer_fired same_shape_sendHeartbeat [of c] show ?thesis
        by (simp add: step_def fire_def same_shape_def)
    qed
  qed
qed

section \<open>State transitions follow the edges\<close>

lemma transition_any: "transition_ok any_edge c (step e c)"
proof -
  from changes_step [of c e] obtain X where
    X: "trace (step e c) = trace c @ X"
       "state_changes X = (if state (step e c) = state c then []
                           else [(state (step e c), state c)])"
    unfolding changes_def by blast
  then have "added c (step e c) = X" by (simp add: added_def)
  with X(2) show ?thesis by (simp add: transition_ok_def any_edge_def)
qed

lemma transition_code:
  assumes "tidy c" "\<not> connect_while_reconnecting e c"
  shows "transition_ok code_edge c (step e c)"
  using transition_any [of c e] edge_step [OF assms]
  by (auto simp: transition_ok_def any_edge_def)

lemma run_follows_any: "run_follows any_edge es c"
  by (induction es arbitrary: c) (simp_all add: transition_any)

lemma run_follows_code: "tidy c \<Longrightarrow> calm es c \<Longrightarrow> run_follows code_edge es c"
  by (induction es arbitrary: c) (simp_all add: transition_code tidy_step)

lemma tidy_new_client: "tidy (new_client ch au uo)"
  by (simp add: tidy_def live_def new_client_def)

text \<open>
  C2 (amended). In every run, from any client, each step changes the state at most once;
  a step that changes it publishes exactly one \<^verbatim>\<open>stateChange\<close> event, carrying the new and
  the previous state, and a step that does not change it publishes none. In every run
  of a new client in which \<^verbatim>\<open>connect()\<close> is not called while the state is
  \<open>reconnecting\<close>, the state changes only along the edges of \<open>code_edge\<close>:
  \<open>disconnected\<close> to \<open>connecting\<close>, \<open>reconnecting\<close> to \<open>connecting\<close>, \<open>connecting\<close> to
  \<open>connected\<close>, \<open>connecting\<close> to \<open>reconnecting\<close>, \<open>connected\<close> to \<open>reconnecting\<close>, and any
  state to \<open>disconnected\<close>. A reconnect passes through \<open>connecting\<close>.
\<close>

theorem state_changes_follow_edges:
  "run_follows any_edge es c \<and>
   (calm es (new_client ch au uo) \<longrightarrow> run_follows code_edge es (new_client ch au uo))"
  using run_follows_any run_follows_code [OF tidy_new_client] by blast

theorem state_changes_follow_edges_witness:
  "calm (reconnect_run @ [Ws_open 1, Call_disconnect]) market0 \<and>
   run_follows any_edge (reconnect_run @ [Ws_open 1, Call_disconnect]) market0 \<and>
   run_follows code_edge (reconnect_run @ [Ws_open 1, Call_disconnect]) market0"
proof -
  have c: "calm (reconnect_run @ [Ws_open 1, Call_disconnect])
             (new_client Market (JObj []) no_options)"
    by code_simp
  show ?thesis
    using c state_changes_follow_edges
      [of "reconnect_run @ [Ws_open 1, Call_disconnect]" market0 Market "JObj []" no_options]
    by (simp add: market0_def)
qed

theorem reconnect_passes_through_connecting_counterexample:
  "state (run [Call_connect False, Ws_open 0, Ws_closed 0 1006 []] market0) = Reconnecting \<and>
   state (run reconnect_run market0) = Connecting \<and>
   \<not> spec_edge Reconnecting Connecting \<and>
   \<not> run_follows spec_edge reconnect_run market0"
  by code_simp

text \<open>
  Why the runs with \<^verbatim>\<open>connect()\<close> during a reconnect delay are set apart: there the
  pending reconnect timer fires in state \<open>connected\<close>, the client falls back to
  \<open>connecting\<close> and constructs a further socket.
\<close>

lemma pending_reconnect_timer_leaves_connected:
  "\<not> calm impatient_run market0 \<and>
   state (run impatient_run market0) = Connected \<and>
   state (step (Timer_fired 2 False) (run impatient_run market0)) = Connecting \<and>
   constructed (added (run impatient_run market0)
                  (step (Timer_fired 2 False) (run impatient_run market0))) = [2]"
  by code_simp

section \<open>After disconnect()\<close>

text \<open>
  In runs without \<^verbatim>\<open>connect()\<close> during a reconnect delay, \<^verbatim>\<open>disconnect()\<close> is final:
  whatever happens afterwards, short of a new \<^verbatim>\<open>connect()\<close>, the client stays
  \<open>disconnected\<close> and constructs no socket.
\<close>

lemma disconnected_stays:
  assumes t: "tidy c" and d: "state c = Disconnected" and e: "\<not> is_connect e"
  shows "state (step e c) = Disconnected \<and> length (sockets (step e c)) = length (sockets c)"
proof -
  have nl: "\<not> live c w" for w
    using tidy_live [OF t, of w] d by auto
  have nr: "x \<in> set (timers c) \<Longrightarrow> kind x \<noteq> Reconnect_timer" for x
    using tidy_reconnect_timer [OF t, of x] d by auto
  show ?thesis
  proof (cases e)
    case (Call_connect b)
    with e show ?thesis by (simp add: is_connect_def)
  next
    case Call_disconnect
    then show ?thesis
      by (simp add: step_def disconnect_fields disconnect_def setState_eq cleanup_fields)
  next
    case (Call_subscribe x)
    with same_shape_subscribe [of c x] d show ?thesis by (simp add: step_def same_shape_def)
  next
    case (Call_unsubscribe x)
    with same_shape_unsubscribe [of c x] d show ?thesis by (simp add: step_def same_shape_def)
  next
    case (Call_on ev cb)
    with same_shape_addEventCallback [of c ev cb] d show ?thesis
      by (simp add: step_def same_shape_def)
  next
    case (Ws_open w)
    with nl [of w] d show ?thesis
      by (auto simp: step_def Let_def live_def set_readyState_shape)
  next
    case (Ws_closed w code reason)
    with nl [of w] d show ?thesis
      by (auto simp: step_def Let_def live_def set_readyState_shape)
  next
    case (Ws_error w)
    with same_shape_onerror [of c] d show ?thesis by (simp add: step_def same_shape_def)
  next
    case (Ws_message w m)
    with same_shape_message [of c m] d show ?thesis by (simp add: step_def same_shape_def)
  next
    case (Timer_fired n b)
    show ?thesis
    proof (cases "find (\<lambda>x. tid x = n) (timers c)")
      case None
      with Timer_fired d show ?thesis by (simp add: step_def)
    next
      case (Some x)
      then have x: "x \<in> set (timers c)" by (auto simp: find_Some_iff)
      show ?thesis
      proof (cases "kind x")
        case (Connection_timer p)
        with Some Timer_fired d show ?thesis
          by (simp add: step_def fire_def connection_timeout_fired_shape clearTimeout_def
              split: option.splits)
      next
        case Reconnect_timer
        with nr [OF x] show ?thesis by simp
      next
        case Heartbeat_timer
        with Some Timer_fired d show ?thesis
          by (simp add: step_def fire_def)
      qed
    qed
  qed
qed

lemma not_connect_calm: "\<not> is_connect e \<Longrightarrow> \<not> connect_while_reconnecting e c"
  by (cases e) (simp_all add: is_connect_def connect_while_reconnecting_def)

lemma disconnected_run_stays:
  assumes "tidy c" "state c = Disconnected" "\<forall>e \<in> set es. \<not> is_connect e"
  shows "state (run es c) = Disconnected \<and> length (sockets (run es c)) = length (sockets c)"
  using assms
proof (induction es arbitrary: c)
  case Nil
  then show ?case by simp
next
  case (Cons e es)
  from Cons.prems have e: "\<not> is_connect e" by simp
  note s = disconnected_stays [OF Cons.prems(1,2) e]
  have "tidy (step e c)"
    using Cons.prems(1) not_connect_calm [OF e] by (rule tidy_step)
  from Cons.IH [OF this] s Cons.prems(3) show ?case by simp
qed

lemma tidy_run: "tidy c \<Longrightarrow> calm es c \<Longrightarrow> tidy (run es c)"
  by (induction es arbitrary: c) (simp_all add: tidy_step)

lemma no_reconnect_after_disconnect:
  assumes "calm es (new_client ch au uo)" "\<forall>e \<in> set es'. \<not> is_connect e"
  shows "state (run es' (step Call_disconnect (run es (new_client ch au uo)))) = Disconnected \<and>
    length (sockets (run es' (step Call_disconnect (run es (new_client ch au uo)))))
      = length (sockets (run es (new_client ch au uo)))"
proof -
  define c where "c = run es (new_client ch au uo)"
  have t: "tidy c"
    unfolding c_def using tidy_new_client assms(1) by (rule tidy_run)
  have td: "tidy (step Call_disconnect c)"
    using t by (rule tidy_step) (simp add: connect_while_reconnecting_def)
  have sd: "state (step Call_disconnect c) = Disconnected"
    "length (sockets (step Call_disconnect c)) = length (sockets c)"
    by (simp_all add: step_def disconnect_fields disconnect_def setState_eq cleanup_fields)
  from disconnected_run_stays [OF td sd(1) assms(2)] sd(2)
  show ?thesis by (simp add: c_def)
qed

text \<open>
  C5 (the code at the failing input). After the run \<open>stale_timer_run\<close> the client is
  \<open>disconnected\<close>, the close is marked intentional and \<^verbatim>\<open>reconnectTimer\<close> is empty, yet
  the reconnect timer armed first (handle 2) is still pending: \<^verbatim>\<open>disconnect()\<close> cleared
  only the timer \<^verbatim>\<open>reconnectTimer\<close> referred to. When the pending timer fires, with no
  \<^verbatim>\<open>connect()\<close> in between, the client enters \<open>connecting\<close> and constructs a new socket.
\<close>

theorem stale_reconnect_timer_fires_after_disconnect:
  "state after_stale_run = Disconnected \<and>
   isIntentionalClose after_stale_run \<and>
   reconnectTimer after_stale_run = None \<and>
   timers after_stale_run = [\<lparr>tid = 2, kind = Reconnect_timer\<rparr>] \<and>
   state (step (Timer_fired 2 False) after_stale_run) = Connecting \<and>
   added after_stale_run (step (Timer_fired 2 False) after_stale_run)
     = [Emit (Ev_stateChange Connecting Disconnected),
        New_WebSocket 2 DEFAULT_CLOB_WSS_URL] \<and>
   length (sockets (step (Timer_fired 2 False) after_stale_run))
     = Suc (length (sockets after_stale_run))"
  by code_simp

section \<open>Reachable clients are well formed\<close>

text \<open>
  In every client reached from a new one the ledger has no duplicates and the handles
  of the armed timers are below the next handle: the two assumptions on the
  representation made for the replay after an unintended close hold throughout.
\<close>

lemma keeps_well_formed: "keeps c c' \<Longrightarrow> well_formed c \<Longrightarrow> well_formed c'"
  unfolding keeps_def well_formed_def by (meson less_le_trans)

lemma keeps_refl [simp]: "keeps c c"
  by (simp add: keeps_def)

lemma keeps_trans: "keeps a b \<Longrightarrow> keeps b c \<Longrightarrow> keeps a c"
  unfolding keeps_def
  by (meson le_trans less_le_trans)

lemma keeps_same:
  "ids c' = ids c \<Longrightarrow> nextTimer c' = nextTimer c \<Longrightarrow> set (timers c') \<subseteq> set (timers c)
     \<Longrightarrow> keeps c c'"
  by (auto simp: keeps_def)

lemma keeps_send: "send d c = Inr c' \<Longrightarrow> keeps c c'"
  by (auto dest!: send_Inr intro!: keeps_same)

lemma keeps_setState: "keeps c (setState n c)"
  by (simp add: setState_eq keeps_same)

lemma keeps_clearConnectionTimeout: "keeps c (clearConnectionTimeout c)"
  by (simp add: clearConnectionTimeout_eq keeps_same set_drop_timer)

lemma keeps_stopHeartbeat: "keeps c (stopHeartbeat c)"
  by (simp add: stopHeartbeat_eq keeps_same set_drop_timer)

lemma keeps_clearTimeout: "keeps c (clearTimeout t c)"
  by (auto simp: clearTimeout_def intro!: keeps_same)

lemma keeps_setTimeout: "keeps c (snd (setTimeout k c))"
  by (auto simp: keeps_def setTimeout_def)

lemma keeps_startHeartbeat: "keeps c (startHeartbeat c)"
  using set_drop_timer [of "heartbeatTimer c" "timers c"]
  by (auto simp: keeps_def startHeartbeat_eq)

lemma keeps_createConnection: "keeps c (snd (createConnection throws c))"
  using set_drop_timer [of "connectionTimer c" "timers c"]
  by (auto simp: keeps_def createConnection_def setState_eq clearConnectionTimeout_eq
      handleError_def emit_def setTimeout_def Let_def)

lemma keeps_connect: "keeps c (snd (connect throws c))"
  using keeps_createConnection [of "c\<lparr>isIntentionalClose := False\<rparr>" throws]
  by (auto simp: connect_def split_beta keeps_def)

lemma cleanup_timers:
  "nextTimer (cleanup c) = nextTimer c" "set (timers (cleanup c)) \<subseteq> set (timers c)"
  using set_drop_timer [of "heartbeatTimer c"] set_drop_timer [of "connectionTimer c" "timers c"]
  by (auto simp: cleanup_def clearConnectionTimeout_eq stopHeartbeat_eq clearTimeout_def
      onCleanup_def ws_close_def Let_def split: option.splits)

lemma keeps_cleanup: "keeps c (cleanup c)"
  unfolding keeps_def using cleanup_timers [of c] by (auto simp: cleanup_fields)

lemma keeps_disconnect: "keeps c (disconnect c)"
  using keeps_cleanup [of "c\<lparr>isIntentionalClose := True\<rparr>"]
  by (auto simp: disconnect_def setState_eq keeps_def)

lemma keeps_onConnected: "onConnected c = Inr c' \<Longrightarrow> keeps c c'"
  by (auto simp: onConnected_def sendFullSubscription_def split: channel.splits if_splits
      dest: keeps_send)

lemma keeps_trace: "keeps c (c\<lparr>trace := tr\<rparr>)"
  by (simp add: keeps_same)

lemma keeps_onopen: "keeps c (onopen p c)"
proof -
  define c4 where "c4 = startHeartbeat (setState Connected
     ((clearConnectionTimeout c)\<lparr>reconnectAttempts := 0\<rparr>))"
  have "keeps c ((clearConnectionTimeout c)\<lparr>reconnectAttempts := 0\<rparr>)"
    using keeps_clearConnectionTimeout [of c] by (simp add: keeps_def)
  then have k4: "keeps c c4"
    unfolding c4_def by (meson keeps_trans keeps_setState keeps_startHeartbeat)
  show ?thesis
  proof (cases "onConnected c4")
    case (Inl e)
    then have "onopen p c = c4\<lparr>trace := trace c4 @ [Uncaught e]\<rparr>"
      by (simp add: onopen_def c4_def Let_def)
    with k4 show ?thesis by (simp add: keeps_def)
  next
    case (Inr c5)
    then have "onopen p c = c5\<lparr>trace := trace c5 @ [Emit Ev_connected, Resolve p]\<rparr>"
      by (simp add: onopen_def c4_def Let_def emit_def)
    with keeps_trans [OF k4 keeps_onConnected [OF Inr]] show ?thesis by (simp add: keeps_def)
  qed
qed

lemma keeps_scheduleReconnect: "keeps c (scheduleReconnect c)"
  by (auto simp: keeps_def scheduleReconnect_def setState_eq handleError_def emit_def
      setTimeout_def Let_def)

lemma keeps_onclose: "keeps c (onclose code reason c)"
proof -
  define c3 where "c3 = emit (Ev_disconnected code reason)
     (stopHeartbeat (clearConnectionTimeout c))"
  have "keeps (stopHeartbeat (clearConnectionTimeout c)) c3"
    by (simp add: c3_def emit_def keeps_same)
  then have k3: "keeps c c3"
    by (meson keeps_trans keeps_clearConnectionTimeout keeps_stopHeartbeat)
  have o: "onclose code reason c =
     (if \<not> isIntentionalClose c3 \<and> autoReconnect (options c3)
      then scheduleReconnect c3 else setState Disconnected c3)"
    by (simp add: onclose_def c3_def Let_def)
  show ?thesis
    unfolding o using keeps_trans [OF k3 keeps_scheduleReconnect]
      keeps_trans [OF k3 keeps_setState] by simp
qed

lemma keeps_set_readyState: "keeps c (set_readyState w rs c)"
  by (simp add: set_readyState_def keeps_same)

lemma keeps_connection_timeout_fired: "keeps c (connection_timeout_fired p c)"
  by (simp add: keeps_same connection_timeout_fired_shape connection_timeout_fired_def
      handleError_def emit_def ws_close_def Let_def split: option.splits)

lemma keeps_sendHeartbeat: "keeps c (sendHeartbeat c)"
  by (auto simp: sendHeartbeat_def split: sum.splits dest: keeps_send)

lemma keeps_fire: "keeps c (fire x throws c)"
proof (cases "kind x")
  case (Connection_timer p)
  then show ?thesis
    using keeps_trans [OF keeps_clearTimeout keeps_connection_timeout_fired]
    by (simp add: fire_def)
next
  case Reconnect_timer
  then show ?thesis
    using keeps_trans [OF keeps_clearTimeout keeps_createConnection]
    by (simp add: fire_def)
next
  case Heartbeat_timer
  then show ?thesis by (simp add: fire_def keeps_sendHeartbeat)
qed

lemma distinct_set_add: "distinct xs \<Longrightarrow> distinct (fold set_add ys xs)"
  by (induction ys arbitrary: xs) (auto simp: set_add_def)

lemma distinct_set_delete: "distinct xs \<Longrightarrow> distinct (fold set_delete ys xs)"
  by (induction ys arbitrary: xs) (auto simp: set_delete_def distinct_removeAll)

lemma keeps_ids: "(distinct (ids c) \<Longrightarrow> distinct xs) \<Longrightarrow> keeps c (c\<lparr>ids := xs\<rparr>)"
  by (auto simp: keeps_def)

lemma keeps_finish:
  "(\<And>c'. r = Inr c' \<Longrightarrow> keeps c c') \<Longrightarrow> keeps c (snd (finish c r))"
  by (cases r) (simp_all add: finish_def)

lemma keeps_subscribe: "keeps c (snd (subscribe arg c))"
proof (cases "validate_ids (channel c) arg")
  case (Inl e)
  then show ?thesis by (simp add: subscribe_def)
next
  case (Inr xs)
  define new where "new = filter (\<lambda>x. x \<notin> set (ids c)) xs"
  define c1 where "c1 = c\<lparr>ids := fold set_add new (ids c)\<rparr>"
  have k1: "keeps c c1"
    unfolding c1_def by (rule keeps_ids) (rule distinct_set_add)
  have f: "keeps c (snd (finish c1 (send d c1)))" for d
    using keeps_send keeps_trans [OF k1] keeps_finish by blast
  show ?thesis
    using Inr k1 f
    by (simp add: subscribe_def Let_def new_def [symmetric] c1_def [symmetric]
        sendFullSubscription_def split: channel.splits)
qed

lemma keeps_unsubscribe: "keeps c (snd (unsubscribe arg c))"
proof (cases "validate_ids (channel c) arg")
  case (Inl e)
  then show ?thesis by (simp add: unsubscribe_def)
next
  case (Inr xs)
  have k: "keeps c (c\<lparr>ids := fold set_delete ys (ids c)\<rparr>)" for ys
    by (rule keeps_ids) (rule distinct_set_delete)
  have f: "keeps c (snd (finish (c\<lparr>ids := fold set_delete ys (ids c)\<rparr>)
                          (send d (c\<lparr>ids := fold set_delete ys (ids c)\<rparr>))))" for d ys
    using keeps_send keeps_trans [OF k] keeps_finish by blast
  show ?thesis
    using Inr f k
    by (simp add: unsubscribe_def Let_def sendFullSubscription_def split: channel.splits)
qed

lemma keeps_step: "keeps c (step e c)"
proof (cases e)
  case (Call_connect b)
  then show ?thesis by (simp add: step_def keeps_connect)
next
  case Call_disconnect
  then show ?thesis by (simp add: step_def keeps_disconnect)
next
  case (Call_subscribe a)
  then show ?thesis by (simp add: step_def keeps_subscribe)
next
  case (Call_unsubscribe a)
  then show ?thesis by (simp add: step_def keeps_unsubscribe)
next
  case (Call_on ev cb)
  then show ?thesis by (simp add: step_def addEventCallback_def Let_def keeps_same)
next
  case (Ws_open w)
  then show ?thesis
    using keeps_trans [OF keeps_set_readyState keeps_onopen]
    by (simp add: step_def Let_def keeps_set_readyState)
next
  case (Ws_closed w code reason)
  then show ?thesis
    using keeps_trans [OF keeps_set_readyState keeps_onclose]
    by (simp add: step_def Let_def keeps_set_readyState)
next
  case (Ws_error w)
  then show ?thesis by (simp add: step_def onerror_def handleError_def emit_def keeps_same)
next
  case (Ws_message w t)
  then show ?thesis by (simp add: step_def handleIncomingMessage_def emit_def keeps_same)
next
  case (Timer_fired t b)
  then show ?thesis by (simp add: step_def keeps_fire split: option.splits)
qed

lemma well_formed_run: "well_formed c \<Longrightarrow> well_formed (run es c)"
  by (induction es arbitrary: c) (simp_all add: keeps_well_formed [OF keeps_step])

lemma well_formed_reachable:
  "distinct (ids (run es (new_client ch au uo))) \<and>
   (\<forall>x \<in> set (timers (run es (new_client ch au uo))).
      tid x < nextTimer (run es (new_client ch au uo)))"
proof -
  have "well_formed (new_client ch au uo)"
    by (simp add: well_formed_def new_client_def)
  from well_formed_run [OF this, of es] show ?thesis
    by (simp add: well_formed_def)
qed

section \<open>A connected client holds a socket\<close>

text \<open>
  In runs of a new client without \<^verbatim>\<open>connect()\<close> during a reconnect delay, the state
  \<open>connected\<close> is never found without a socket: there \<^verbatim>\<open>send\<close> always reaches the
  transport.
\<close>

lemma same_shape_holds_socket: "same_shape c c' \<Longrightarrow> holds_socket c \<Longrightarrow> holds_socket c'"
  by (auto simp: same_shape_def holds_socket_def)

lemma holds_socket_step:
  assumes t: "tidy c" and j: "holds_socket c"
  shows "holds_socket (step e c)"
proof (cases e)
  case (Call_connect b)
  show ?thesis
  proof (cases "state c = Connected \<or> state c = Connecting")
    case True
    with Call_connect j show ?thesis by (auto simp: step_def connect_def)
  next
    case False
    with Call_connect createConnection_shape(1) [of b "c\<lparr>isIntentionalClose := False\<rparr>"]
    show ?thesis
      by (simp add: step_def connect_def split_beta holds_socket_def)
  qed
next
  case Call_disconnect
  then show ?thesis by (simp add: step_def disconnect_fields holds_socket_def)
next
  case (Call_subscribe x)
  with same_shape_holds_socket [OF same_shape_subscribe j] show ?thesis by (simp add: step_def)
next
  case (Call_unsubscribe x)
  with same_shape_holds_socket [OF same_shape_unsubscribe j] show ?thesis by (simp add: step_def)
next
  case (Call_on ev cb)
  with same_shape_holds_socket [OF same_shape_addEventCallback j] show ?thesis
    by (simp add: step_def)
next
  case (Ws_open w)
  show ?thesis
  proof (cases "w < length (sockets c) \<and> readyState (sockets c ! w) = CONNECTING
      \<and> handlers (sockets c ! w)")
    case True
    then have "live c w" by (simp add: live_def)
    from tidy_live [OF t this] True Ws_open show ?thesis
      by (simp add: step_def Let_def onopen_shape set_readyState_shape holds_socket_def)
  next
    case False
    with Ws_open j show ?thesis
      by (auto simp: step_def Let_def set_readyState_shape holds_socket_def)
  qed
next
  case (Ws_closed w code reason)
  show ?thesis
  proof (cases "w < length (sockets c) \<and> readyState (sockets c ! w) \<noteq> CLOSED
      \<and> handlers (sockets c ! w)")
    case True
    with Ws_closed onclose_shape(3) [of code reason "set_readyState w CLOSED c"]
    show ?thesis
      by (auto simp: step_def Let_def holds_socket_def)
  next
    case False
    with Ws_closed j show ?thesis
      by (auto simp: step_def Let_def set_readyState_shape holds_socket_def)
  qed
next
  case (Ws_error w)
  with same_shape_holds_socket [OF same_shape_onerror j] j show ?thesis by (simp add: step_def)
next
  case (Ws_message w m)
  with same_shape_holds_socket [OF same_shape_message j] j show ?thesis by (simp add: step_def)
next
  case (Timer_fired n b)
  show ?thesis
  proof (cases "find (\<lambda>x. tid x = n) (timers c)")
    case None
    with Timer_fired j show ?thesis by (simp add: step_def)
  next
    case (Some x)
    show ?thesis
    proof (cases "kind x")
      case (Connection_timer p)
      with Some Timer_fired j show ?thesis
        by (auto simp: step_def fire_def connection_timeout_fired_shape clearTimeout_def
            holds_socket_def split: option.splits)
    next
      case Reconnect_timer
      with Some Timer_fired show ?thesis
        by (simp add: step_def fire_def createConnection_shape holds_socket_def)
    next
      case Heartbeat_timer
      with Some Timer_fired same_shape_holds_socket [OF same_shape_sendHeartbeat j] j
      show ?thesis
        by (simp add: step_def fire_def)
    qed
  qed
qed

lemma holds_socket_run:
  "tidy c \<Longrightarrow> holds_socket c \<Longrightarrow> calm es c \<Longrightarrow> holds_socket (run es c)"
  by (induction es arbitrary: c) (simp_all add: holds_socket_step tidy_step)

lemma connected_holds_socket:
  assumes "calm es (new_client ch au uo)" "state (run es (new_client ch au uo)) = Connected"
  shows "\<exists>w. ws (run es (new_client ch au uo)) = Some w"
proof -
  have "holds_socket (new_client ch au uo)"
    by (simp add: holds_socket_def new_client_def)
  from holds_socket_run [OF tidy_new_client this assms(1)] assms(2)
  show ?thesis by (auto simp: holds_socket_def)
qed

text \<open>
  The socket held keeps its handlers, in every run; so in runs without \<^verbatim>\<open>connect()\<close>
  during a reconnect delay the socket of a connected client is never one that is still
  connecting, and \<^verbatim>\<open>send\<close> of the transport does not throw.
\<close>

lemma same_shape_attached: "same_shape c c' \<Longrightarrow> attached c \<Longrightarrow> attached c'"
  by (simp add: same_shape_def attached_def)

lemma attached_update:
  assumes "attached c" "ws c' = ws c"
    "sockets c' = (sockets c)[v := (sockets c ! v)\<lparr>readyState := rs\<rparr>]"
  shows "attached c'"
  unfolding attached_def
proof (intro allI impI)
  fix w assume "ws c' = Some w"
  with assms(1,2) have w: "w < length (sockets c)" "handlers (sockets c ! w)"
    by (simp_all add: attached_def)
  then show "w < length (sockets c') \<and> handlers (sockets c' ! w)"
    unfolding assms(3) by (cases "w = v") simp_all
qed

lemma attached_createConnection: "attached c \<Longrightarrow> attached (snd (createConnection throws c))"
proof (cases throws)
  case True
  assume "attached c"
  then show ?thesis
    using createConnection_shape(3,4) [OF True, of c] by (simp add: attached_def)
next
  case False
  show ?thesis
    using createConnection_shape(6,7) [OF False, of c] by (simp add: attached_def)
qed

lemma attached_step:
  assumes j: "attached c"
  shows "attached (step e c)"
proof (cases e)
  case (Call_connect b)
  have "attached (c\<lparr>isIntentionalClose := False\<rparr>)"
    using j by (simp add: attached_def)
  from attached_createConnection [OF this, of b] j Call_connect show ?thesis
    by (simp add: step_def connect_def split_beta)
next
  case Call_disconnect
  then show ?thesis by (simp add: step_def disconnect_fields attached_def)
next
  case (Call_subscribe x)
  with same_shape_attached [OF same_shape_subscribe j] show ?thesis by (simp add: step_def)
next
  case (Call_unsubscribe x)
  with same_shape_attached [OF same_shape_unsubscribe j] show ?thesis by (simp add: step_def)
next
  case (Call_on ev cb)
  with same_shape_attached [OF same_shape_addEventCallback j] show ?thesis
    by (simp add: step_def)
next
  case (Ws_open w)
  have "attached (set_readyState w OPEN c)"
    using j by (rule attached_update) (simp_all add: set_readyState_shape)
  moreover have "attached (onopen p (set_readyState w OPEN c))" for p
    using j by (rule attached_update) (simp_all add: onopen_shape set_readyState_shape)
  ultimately show ?thesis
    using Ws_open j by (simp add: step_def Let_def)
next
  case (Ws_closed w code reason)
  have "attached (set_readyState w CLOSED c)"
    using j by (rule attached_update) (simp_all add: set_readyState_shape)
  moreover have "attached (onclose code reason (set_readyState w CLOSED c))"
    using j by (rule attached_update) (simp_all add: onclose_shape set_readyState_shape)
  ultimately show ?thesis
    using Ws_closed j by (simp add: step_def Let_def)
next
  case (Ws_error w)
  with same_shape_attached [OF same_shape_onerror j] j show ?thesis by (simp add: step_def)
next
  case (Ws_message w m)
  with same_shape_attached [OF same_shape_message j] j show ?thesis by (simp add: step_def)
next
  case (Timer_fired n b)
  show ?thesis
  proof (cases "find (\<lambda>x. tid x = n) (timers c)")
    case None
    with Timer_fired j show ?thesis by (simp add: step_def)
  next
    case (Some x)
    have j1: "attached (clearTimeout (tid x) c)"
      using same_shape_clearTimeout j by (rule same_shape_attached)
    show ?thesis
    proof (cases "kind x")
      case (Connection_timer p)
      have "attached (connection_timeout_fired p (clearTimeout (tid x) c))"
      proof (cases "ws (clearTimeout (tid x) c)")
        case None
        then show ?thesis
          by (simp add: attached_def connection_timeout_fired_shape)
      next
        case (Some v)
        show ?thesis
        proof (cases "readyState (sockets (clearTimeout (tid x) c) ! v) = CONNECTING \<or>
            readyState (sockets (clearTimeout (tid x) c) ! v) = OPEN")
          case True
          with Some show ?thesis
            by (intro attached_update [OF j1, of _ v CLOSING])
               (simp_all add: connection_timeout_fired_shape)
        next
          case False
          with Some j1 show ?thesis
            by (simp add: attached_def connection_timeout_fired_shape)
        qed
      qed
      with Connection_timer Some Timer_fired show ?thesis
        by (simp add: step_def fire_def)
    next
      case Reconnect_timer
      with Some Timer_fired attached_createConnection [OF j1, of b] show ?thesis
        by (simp add: step_def fire_def)
    next
      case Heartbeat_timer
      with Some Timer_fired same_shape_attached [OF same_shape_sendHeartbeat j] j
      show ?thesis
        by (simp add: step_def fire_def)
    qed
  qed
qed

lemma attached_run: "attached c \<Longrightarrow> attached (run es c)"
  by (induction es arbitrary: c) (simp_all add: attached_step)

lemma connected_socket_not_connecting:
  assumes "calm es (new_client ch au uo)" "state (run es (new_client ch au uo)) = Connected"
  shows "\<exists>w. ws (run es (new_client ch au uo)) = Some w \<and>
    readyState (sockets (run es (new_client ch au uo)) ! w) \<noteq> CONNECTING \<and>
    (\<forall>s. \<exists>c'. send (Value (JStr s)) (run es (new_client ch au uo)) = Inr c')"
proof -
  define c where "c = run es (new_client ch au uo)"
  have t: "tidy c"
    unfolding c_def using tidy_new_client assms(1) by (rule tidy_run)
  have "attached (new_client ch au uo)"
    by (simp add: attached_def new_client_def)
  then have a: "attached c"
    unfolding c_def by (rule attached_run)
  from connected_holds_socket [OF assms] obtain w where w: "ws c = Some w"
    by (auto simp: c_def)
  with a have h: "w < length (sockets c)" "handlers (sockets c ! w)"
    by (simp_all add: attached_def)
  have n: "readyState (sockets c ! w) \<noteq> CONNECTING"
  proof
    assume r: "readyState (sockets c ! w) = CONNECTING"
    with h have "live c w" by (simp add: live_def)
    from tidy_live [OF t this] r assms(2) show False by (simp add: c_def)
  qed
  then have "\<exists>c'. send (Value (JStr s)) c = Inr c'" for s
    using w assms(2) [folded c_def]
    by (cases "readyState (sockets c ! w)") (simp_all add: send_def ws_send_def)
  with w n show ?thesis
    unfolding c_def by blast
qed

section \<open>Entering the state connected\<close>

lemma run_append: "run (a @ b) c = run b (run a c)"
  by (induction a arbitrary: c) simp_all

lemma calm_append: "calm (a @ b) c \<longleftrightarrow> calm a c \<and> calm b (run a c)"
  by (induction a arbitrary: c) simp_all

text \<open>
  The only step that brings a tidy client into state \<open>connected\<close> is the open event of
  the socket it holds, in state \<open>connecting\<close>.
\<close>

lemma entering_connected:
  assumes t: "tidy c" and s: "state c \<noteq> Connected" "state (step e c) = Connected"
  shows "\<exists>w. e = Ws_open w \<and> ws c = Some w \<and> w < length (sockets c) \<and>
           readyState (sockets c ! w) = CONNECTING \<and> handlers (sockets c ! w) \<and>
           state c = Connecting"
proof (cases e)
  case (Call_connect b)
  with s createConnection_shape(1) [of b "c\<lparr>isIntentionalClose := False\<rparr>"] show ?thesis
    by (auto simp: step_def connect_def split_beta split: if_splits)
next
  case Call_disconnect
  with s show ?thesis by (simp add: step_def disconnect_fields)
next
  case (Call_subscribe x)
  with same_shape_subscribe [of c x] s show ?thesis by (simp add: step_def same_shape_def)
next
  case (Call_unsubscribe x)
  with same_shape_unsubscribe [of c x] s show ?thesis by (simp add: step_def same_shape_def)
next
  case (Call_on ev cb)
  with same_shape_addEventCallback [of c ev cb] s show ?thesis
    by (simp add: step_def same_shape_def)
next
  case (Ws_open w)
  show ?thesis
  proof (cases "w < length (sockets c) \<and> readyState (sockets c ! w) = CONNECTING
      \<and> handlers (sockets c ! w)")
    case True
    then have "live c w" by (simp add: live_def)
    from tidy_live [OF t this] True Ws_open show ?thesis by simp
  next
    case False
    with Ws_open have "state (step e c) = state c"
      by (auto simp: step_def Let_def set_readyState_shape)
    with s show ?thesis by simp
  qed
next
  case (Ws_closed w code reason)
  show ?thesis
  proof (cases "w < length (sockets c) \<and> readyState (sockets c ! w) \<noteq> CLOSED
      \<and> handlers (sockets c ! w)")
    case True
    with Ws_closed onclose_shape(3) [of code reason "set_readyState w CLOSED c"]
    have "state (step e c) \<noteq> Connected" by (auto simp: step_def Let_def)
    with s show ?thesis by simp
  next
    case False
    with Ws_closed have "state (step e c) = state c"
      by (auto simp: step_def Let_def set_readyState_shape)
    with s show ?thesis by simp
  qed
next
  case (Ws_error w)
  with same_shape_onerror [of c] s show ?thesis
    by (simp add: step_def same_shape_def split: if_splits)
next
  case (Ws_message w m)
  with same_shape_message [of c m] s show ?thesis
    by (simp add: step_def same_shape_def split: if_splits)
next
  case (Timer_fired n b)
  show ?thesis
  proof (cases "find (\<lambda>x. tid x = n) (timers c)")
    case None
    with Timer_fired s show ?thesis by (simp add: step_def)
  next
    case (Some x)
    show ?thesis
    proof (cases "kind x")
      case (Connection_timer p)
      with Some Timer_fired s show ?thesis
        by (simp add: step_def fire_def connection_timeout_fired_shape clearTimeout_def)
    next
      case Reconnect_timer
      with Some Timer_fired s show ?thesis
        by (simp add: step_def fire_def createConnection_shape)
    next
      case Heartbeat_timer
      with Some Timer_fired same_shape_sendHeartbeat [of c] s show ?thesis
        by (simp add: step_def fire_def same_shape_def split: if_splits)
    qed
  qed
qed

lemma entering_connected_effects:
  assumes t: "tidy c" and s: "state c \<noteq> Connected" "state (step e c) = Connected"
  shows "\<exists>w. e = Ws_open w \<and> ws c = Some w \<and> state c = Connecting \<and>
           ids (step e c) = ids c \<and>
           trace (step e c) = trace c @
             Emit (Ev_stateChange Connected Connecting) #
             (if sends_replay c then [Ws_send w (JSON_stringify (replay_message c))] else []) @
             [Emit Ev_connected, Resolve (promise (sockets c ! w))]"
proof -
  from entering_connected [OF assms] obtain w where
    w: "e = Ws_open w" "ws c = Some w" "w < length (sockets c)"
       "readyState (sockets c ! w) = CONNECTING" "handlers (sockets c ! w)"
       "state c = Connecting"
    by blast
  from open_effects(2,3) [OF w(2-5) s(1)] w show ?thesis by simp
qed

text \<open>
  C4 (amended). In a run of a new client without \<^verbatim>\<open>connect()\<close> during a reconnect delay,
  whenever a step brings the client into state \<open>connected\<close>, that step is the open event
  of the socket the client holds, and what it does is, in this order: it publishes the
  \<^verbatim>\<open>stateChange\<close> from \<open>connecting\<close> to \<open>connected\<close>, hands the replay message to that
  socket, publishes \<^verbatim>\<open>connected\<close> and resolves the promise. The replay is one message
  listing the whole ledger; the user channel always sends it, the market channel sends
  it when the ledger has at least one entry and sends nothing for an empty ledger.
\<close>

theorem replay_precedes_connected_event:
  assumes "calm es (new_client ch au uo)"
    and "state (run es (new_client ch au uo)) \<noteq> Connected"
    and "state (step e (run es (new_client ch au uo))) = Connected"
  shows "\<exists>w. e = Ws_open w \<and> ws (run es (new_client ch au uo)) = Some w \<and>
    (let c = run es (new_client ch au uo)
     in added c (step e c) =
          Emit (Ev_stateChange Connected Connecting) #
          (if sends_replay c then [Ws_send w (JSON_stringify (replay_message c))] else []) @
          [Emit Ev_connected, Resolve (promise (sockets c ! w))]
      \<and> sent (added c (step e c)) =
          (if sends_replay c then [(w, JSON_stringify (replay_message c))] else []))"
proof -
  have "tidy (run es (new_client ch au uo))"
    using tidy_new_client assms(1) by (rule tidy_run)
  from entering_connected_effects [OF this assms(2,3)] show ?thesis
    unfolding Let_def added_def by auto
qed

theorem replay_precedes_connected_event_witness:
  \<open>calm [Call_subscribe two_assets, Call_connect False] market0 \<and>
   ids subscribed_connecting = [''asset1'', ''asset2''] \<and>
   state subscribed_connecting = Connecting \<and>
   state (step (Ws_open 0) subscribed_connecting) = Connected \<and>
   added subscribed_connecting (step (Ws_open 0) subscribed_connecting)
     = [Emit (Ev_stateChange Connected Connecting),
        Ws_send 0 ''{"type":"MARKET","assets_ids":["asset1","asset2"]}'',
        Emit Ev_connected, Resolve 0] \<and>
   sent (added subscribed_connecting (step (Ws_open 0) subscribed_connecting))
     = [(0, ''{"type":"MARKET","assets_ids":["asset1","asset2"]}'')]\<close>
proof -
  have r: "run [Call_subscribe two_assets, Call_connect False]
             (new_client Market (JObj []) no_options) = subscribed_connecting"
    by (simp only: subscribed_connecting_def market0_def)
  have h: "calm [Call_subscribe two_assets, Call_connect False]
             (new_client Market (JObj []) no_options)"
    "state (run [Call_subscribe two_assets, Call_connect False]
             (new_client Market (JObj []) no_options)) \<noteq> Connected"
    "state (step (Ws_open 0) (run [Call_subscribe two_assets, Call_connect False]
             (new_client Market (JObj []) no_options))) = Connected"
    by code_simp+
  have v: "ids subscribed_connecting = [''asset1'', ''asset2'']"
    "state subscribed_connecting = Connecting" "sends_replay subscribed_connecting"
    "promise (sockets subscribed_connecting ! 0) = 0"
    \<open>JSON_stringify (replay_message subscribed_connecting)
       = ''{"type":"MARKET","assets_ids":["asset1","asset2"]}''\<close>
    by code_simp+
  show ?thesis
    using v h replay_precedes_connected_event [OF h] unfolding r Let_def market0_def
    by auto
qed

theorem empty_ledger_no_replay_counterexample:
  "ids (step (Call_connect False) market0) = [] \<and>
   state open_market = Connected \<and>
   trace open_market
     = [Emit (Ev_stateChange Connecting Disconnected),
        New_WebSocket 0 DEFAULT_CLOB_WSS_URL,
        Emit (Ev_stateChange Connected Connecting), Emit Ev_connected, Resolve 0] \<and>
   sent (trace open_market) = []"
  by code_simp

section \<open>Reconnection and the ledger\<close>

text \<open>
  In a run of a new client without \<^verbatim>\<open>connect()\<close> during a reconnect delay the ledger
  survives an unintended close and is replayed once: if no \<^verbatim>\<open>subscribe\<close>, \<^verbatim>\<open>unsubscribe\<close> or
  \<^verbatim>\<open>disconnect()\<close> happens from some point of the run on (for instance from the close
  event on), then the step that brings the client back to \<open>connected\<close> hands the socket
  held exactly one message, the replay of the ledger as it was at that point.
\<close>

lemma calm_reconnect_replays_ledger:
  assumes "calm (es @ es') (new_client ch au uo)"
    and "\<forall>x \<in> set es'. \<not> touches_ledger x"
    and "state (run (es @ es') (new_client ch au uo)) \<noteq> Connected"
    and "state (step e (run (es @ es') (new_client ch au uo))) = Connected"
  shows "\<exists>w. e = Ws_open w \<and> ws (run (es @ es') (new_client ch au uo)) = Some w \<and>
    ids (step e (run (es @ es') (new_client ch au uo))) = ids (run es (new_client ch au uo)) \<and>
    sent (added (run (es @ es') (new_client ch au uo))
            (step e (run (es @ es') (new_client ch au uo)))) =
      (if sends_replay (run es (new_client ch au uo))
       then [(w, JSON_stringify (replay_message (run es (new_client ch au uo))))] else [])"
proof -
  define c0 where "c0 = run es (new_client ch au uo)"
  define c where "c = run (es @ es') (new_client ch au uo)"
  have c: "c = run es' c0" by (simp add: c_def c0_def run_append)
  have t: "tidy c"
    unfolding c_def using tidy_new_client assms(1) by (rule tidy_run)
  from same_ledger_run [OF assms(2), of c0]
  have l: "ids c = ids c0" "channel c = channel c0" "auth c = auth c0"
    by (simp_all add: same_ledger_def c)
  then have sr: "sends_replay c = sends_replay c0" "replay_message c = replay_message c0"
    by (simp_all add: sends_replay_def replay_message_def split: channel.splits)
  from entering_connected_effects [OF t assms(3,4) [folded c_def]] l(1) sr show ?thesis
    unfolding c_def [symmetric] c0_def [symmetric] added_def by auto
qed

text \<open>
  With \<^verbatim>\<open>connect()\<close> during the reconnect delay this fails. When the socket that was
  replaced opens first, \<^verbatim>\<open>onConnected\<close> sends the replay to the socket held, which is
  still connecting: the exception leaves the handler, no replay is sent and no
  \<^verbatim>\<open>connected\<close> event is published.
\<close>

lemma replaced_socket_opens_first:
  "state (run [Ws_closed 0 1006 [], Call_connect False, Timer_fired 2 False] connected_market)
     = Connecting \<and>
   ws (run [Ws_closed 0 1006 [], Call_connect False, Timer_fired 2 False] connected_market)
     = Some 2 \<and>
   added (run [Ws_closed 0 1006 [], Call_connect False, Timer_fired 2 False] connected_market)
     (run [Ws_closed 0 1006 [], Call_connect False, Timer_fired 2 False, Ws_open 1]
        connected_market)
     = [Emit (Ev_stateChange Connected Connecting), Uncaught InvalidStateError]"
  by code_simp

text \<open>
  C1 (the code at the failing input). A connected client with the ledger
  \<open>asset1, asset2\<close> loses its socket; \<^verbatim>\<open>connect()\<close> is called during the reconnect delay
  and constructs socket 1; the reconnect timer, which the call did not cancel, fires and
  constructs socket 2, which replaces socket 1 as the socket held; socket 2 opens, then
  socket 1 opens. Both open events run \<^verbatim>\<open>onConnected\<close>: the ledger, unchanged since
  before the close, is sent twice, both times to socket 2.
\<close>

theorem ledger_replayed_twice_after_reconnect:
  \<open>state connected_market = Connected \<and>
   ids connected_market = [''asset1'', ''asset2''] \<and>
   state after_double_replay = Connected \<and>
   ids after_double_replay = [''asset1'', ''asset2''] \<and>
   constructed (added connected_market after_double_replay) = [1, 2] \<and>
   sent (added connected_market after_double_replay)
     = [(2, ''{"type":"MARKET","assets_ids":["asset1","asset2"]}''),
        (2, ''{"type":"MARKET","assets_ids":["asset1","asset2"]}'')]\<close>
  by code_simp

end
